theory Spec2Isabelle
  imports Main "HOL-Library.Char_ord" "HOL-Library.List_Lexorder" "HOL-Library.AList"
begin

section \<open>Python values and built-ins used by moonwalk\_tracker.py\<close>

text \<open>
  The exceptions the modelled code can raise. Every fallible function returns
  \<open>py_error + 'a\<close>, with \<open>Inl\<close> for the raised exception.
\<close>

datatype py_error = TypeError | ValueError | KeyError

text \<open>
  A raw step value as decoded from the JSON payload: an integer, a string, JSON null
  (\<^verbatim>\<open>None\<close>), or the float NaN, which the JSON decoder accepts. Step counts are
  integers, so \<^verbatim>\<open>int(steps)\<close> is the identity on \<open>Num\<close>. \<^verbatim>\<open>pd.isna\<close> holds for
  \<open>Null\<close> and \<open>NaN\<close>.
\<close>

datatype raw = Num int | Str string | Null | NaN

subsection \<open>Decimal numerals\<close>

definition digit_char :: "nat \<Rightarrow> char" where
  "digit_char d = ''0123456789'' ! d"

definition is_digit :: "char \<Rightarrow> bool" where
  "is_digit c \<longleftrightarrow> c \<in> set ''0123456789''"

definition digit_val :: "char \<Rightarrow> nat" where
  "digit_val c = of_char c - 48"

text \<open>\<^verbatim>\<open>str(n)\<close> for a non-negative integer.\<close>

function str_nat :: "nat \<Rightarrow> string" where
  "str_nat n = (if n < 10 then [digit_char n] else str_nat (n div 10) @ [digit_char (n mod 10)])"
  by pat_completeness auto
termination
  by (relation "measure id") auto

declare str_nat.simps [simp del]

text \<open>
  The thousands separator of the format specification \<^verbatim>\<open>{:,}\<close>: a comma before every
  group of three digits, counted from the right.
\<close>

function commas :: "string \<Rightarrow> string" where
  "commas ds = (if length ds \<le> 3 then ds
     else commas (take (length ds - 3) ds) @ '','' @ drop (length ds - 3) ds)"
  by pat_completeness auto
termination
  by (relation "measure length") auto

declare commas.simps [simp del]

text \<open>\<^verbatim>\<open>f"{n:,}"\<close> for an integer \<open>n\<close>.\<close>

definition format_comma :: "int \<Rightarrow> string" where
  "format_comma n = (if n < 0 then ''-'' @ commas (str_nat (nat (- n))) else commas (str_nat (nat n)))"

subsection \<open>String operations\<close>

text \<open>\<^verbatim>\<open>sub in s\<close> for strings.\<close>

fun has_sub :: "string \<Rightarrow> string \<Rightarrow> bool" where
  "has_sub sub [] = (sub = [])"
| "has_sub sub (c # cs) = (take (length sub) (c # cs) = sub \<or> has_sub sub cs)"

text \<open>
  \<^verbatim>\<open>s.replace(old, new)\<close>: every non-overlapping occurrence of \<open>old\<close>, scanning from
  the left. For the empty \<open>old\<close> Python inserts \<open>new\<close> before every character and at the end.
\<close>

function replace_nonempty :: "string \<Rightarrow> string \<Rightarrow> string \<Rightarrow> string" where
  "replace_nonempty old new s =
     (if old = [] \<or> s = [] then s
      else if take (length old) s = old then new @ replace_nonempty old new (drop (length old) s)
      else hd s # replace_nonempty old new (tl s))"
  by pat_completeness auto
termination
  by (relation "measure (\<lambda>(old, new, s). length s)") auto

declare replace_nonempty.simps [simp del]

definition replace :: "string \<Rightarrow> string \<Rightarrow> string \<Rightarrow> string" where
  "replace old new s =
     (if old = [] then new @ concat (map (\<lambda>c. c # new) s) else replace_nonempty old new s)"

text \<open>\<^verbatim>\<open>s.split(c)\<close> for a one-character separator: never the empty list.\<close>

fun split_on :: "char \<Rightarrow> string \<Rightarrow> string list" where
  "split_on c [] = [[]]"
| "split_on c (x # xs) =
     (if x = c then [] # split_on c xs
      else (x # hd (split_on c xs)) # tl (split_on c xs))"

text \<open>
  \<^verbatim>\<open>int(s)\<close> for an ASCII string: surrounding white space (tab, line feed, vertical
  tab, form feed, carriage return, space) is stripped, one sign is allowed, and single
  underscores may separate digits; anything else raises ValueError. The strings that
  \<^verbatim>\<open>display_results\<close> converts are ASCII (\<open>shown_ascii\<close> below); for a string with a
  character outside ASCII, Python also accepts the white space and the decimal digits of
  Unicode, which this definition does not cover; nor does it cover the limit that newer
  interpreters put on the number of digits (4300), far above the length of those strings.
\<close>

definition is_space :: "char \<Rightarrow> bool" where
  "is_space c \<longleftrightarrow>
     c \<in> set [CHR 0x09, CHR 0x0A, CHR 0x0B, CHR 0x0C, CHR 0x0D, CHR 0x20]"

definition ascii :: "string \<Rightarrow> bool" where
  "ascii s = list_all (\<lambda>c. (of_char c :: nat) < 128) s"

definition strip_ws :: "string \<Rightarrow> string" where
  "strip_ws s = rev (dropWhile is_space (rev (dropWhile is_space s)))"

definition digits_val :: "string \<Rightarrow> nat" where
  "digits_val s = foldl (\<lambda>a c. 10 * a + digit_val c) 0 s"

definition py_int :: "string \<Rightarrow> py_error + int" where
  "py_int s =
     (let t = strip_ws s;
          neg = (t \<noteq> [] \<and> hd t = CHR ''-'');
          body = (if t \<noteq> [] \<and> (hd t = CHR ''-'' \<or> hd t = CHR ''+'') then tl t else t);
          groups = split_on (CHR ''_'') body
      in if list_all (\<lambda>g. g \<noteq> [] \<and> list_all is_digit g) groups
         then Inr ((if neg then - 1 else 1) * int (digits_val (concat groups)))
         else Inl ValueError)"

section \<open>Aggregator: \<^verbatim>\<open>format_steps\<close>\<close>

text \<open>
  \<^verbatim>\<open>
  def format_steps(steps):
      if isinstance(steps, str) and 'k+' in steps:
          return steps
      if pd.isna(steps) or steps == 0:
          return '-'
      if steps >= 30000:
          return '30k+'
      return f"{int(steps):,}"
  \<close>
  A string without \<^verbatim>\<open>'k+'\<close> is neither NA nor equal to 0, and comparing it with
  \<^verbatim>\<open>30000\<close> raises TypeError. \<^verbatim>\<open>pd.isna\<close> holds for \<^verbatim>\<open>None\<close> and for NaN.
\<close>

definition format_steps :: "raw \<Rightarrow> py_error + string" where
  "format_steps steps =
     (case steps of
        Str s \<Rightarrow> if has_sub ''k+'' s then Inr s else Inl TypeError
      | Null \<Rightarrow> Inr ''-''
      | NaN \<Rightarrow> Inr ''-''
      | Num n \<Rightarrow>
          if n = 0 then Inr ''-''
          else if n \<ge> 30000 then Inr ''30k+''
          else Inr (format_comma n))"

section \<open>CompletionEvaluator: \<^verbatim>\<open>check_task_completion\<close>\<close>

text \<open>
  A step entry as \<^verbatim>\<open>display_results\<close> hands it to the evaluator: a dictionary with
  the key \<^verbatim>\<open>'day'\<close> and an integer under \<^verbatim>\<open>'steps'\<close>; \<open>None\<close> stands for an absent
  \<^verbatim>\<open>'steps'\<close> key.
\<close>

record 'v step =
  day :: string
  steps :: "'v option"

text \<open>\<^verbatim>\<open>step['day'].split('T')[0] if 'T' in step['day'] else step['day']\<close>\<close>

definition step_date :: "string \<Rightarrow> string" where
  "step_date d = (if CHR ''T'' \<in> set d then hd (split_on (CHR ''T'') d) else d)"

text \<open>\<^verbatim>\<open>step.get('steps', 0)\<close> on an evaluator entry.\<close>

definition entry_steps :: "int step \<Rightarrow> int" where
  "entry_steps e = (case steps e of None \<Rightarrow> 0 | Some v \<Rightarrow> v)"

text \<open>
  The result of the evaluation. The code returns the strings \<^verbatim>\<open>'-'\<close>,
  \<^verbatim>\<open>'Complete'\<close> and \<^verbatim>\<open>f'Failed({completed_days}/{required_days})'\<close>; \<open>show_status\<close>
  renders them.
\<close>

datatype status = NotYetDue | Complete | Failed nat nat

definition show_status :: "status \<Rightarrow> string" where
  "show_status st =
     (case st of
        NotYetDue \<Rightarrow> ''-''
      | Complete \<Rightarrow> ''Complete''
      | Failed c r \<Rightarrow> ''Failed('' @ str_nat c @ ''/'' @ str_nat r @ '')'')"

text \<open>The loop over \<^verbatim>\<open>steps_data\<close>, carrying \<open>(completed_days, required_days)\<close>.\<close>

fun count_days :: "int \<Rightarrow> string \<Rightarrow> int step list \<Rightarrow> nat \<times> nat \<Rightarrow> nat \<times> nat" where
  "count_days step_target current_date [] (completed_days, required_days) =
     (completed_days, required_days)"
| "count_days step_target current_date (step # rest) (completed_days, required_days) =
     (if step_date (day step) \<le> current_date
      then count_days step_target current_date rest
             (if entry_steps step \<ge> step_target then completed_days + 1 else completed_days,
              required_days + 1)
      else count_days step_target current_date rest (completed_days, required_days))"

definition check_task_completion :: "int step list \<Rightarrow> int \<Rightarrow> string \<Rightarrow> status" where
  "check_task_completion steps_data step_target current_date =
     (case count_days step_target current_date steps_data (0, 0) of
        (completed_days, required_days) \<Rightarrow>
          if required_days = 0 then NotYetDue
          else if completed_days = required_days then Complete
          else Failed completed_days required_days)"

section \<open>Aggregator: \<^verbatim>\<open>process_player_data\<close>\<close>

text \<open>
  A step entry of the API: a dictionary in which the keys \<^verbatim>\<open>'day'\<close> and
  \<^verbatim>\<open>'steps'\<close> may each be absent (\<open>None\<close>).
\<close>

record api_step =
  raw_day :: "string option"
  raw_steps :: "raw option"

text \<open>
  A raw player record. \<open>name\<close> is \<^verbatim>\<open>player.get('user', {}).get('name', '')\<close>, with
  \<open>None\<close> for JSON null; a missing \<^verbatim>\<open>'user'\<close> or \<^verbatim>\<open>'name'\<close> key gives the empty
  string. \<open>player_steps\<close> is \<^verbatim>\<open>player.get('steps', [])\<close>.
\<close>

record player =
  name :: "string option"
  player_steps :: "api_step list"

text \<open>\<^verbatim>\<open>step.get('steps', 0)\<close> on a raw entry.\<close>

definition get_steps :: "api_step \<Rightarrow> raw" where
  "get_steps s = (case raw_steps s of None \<Rightarrow> Num 0 | Some v \<Rightarrow> v)"

text \<open>
  \<^verbatim>\<open>a > b\<close>: integers and strings compare among themselves; a comparison of NaN with a
  number is false and raises nothing (\<^verbatim>\<open>nan > 0\<close> and \<^verbatim>\<open>5 > nan\<close> are
  \<^verbatim>\<open>False\<close>); every other pairing raises TypeError (as \<^verbatim>\<open>None > 0\<close> and
  \<^verbatim>\<open>'30k+' > 0\<close> do).
\<close>

definition py_gt :: "raw \<Rightarrow> raw \<Rightarrow> py_error + bool" where
  "py_gt a b =
     (case (a, b) of
        (Num x, Num y) \<Rightarrow> Inr (x > y)
      | (Num x, NaN) \<Rightarrow> Inr False
      | (NaN, Num y) \<Rightarrow> Inr False
      | (NaN, NaN) \<Rightarrow> Inr False
      | (Str x, Str y) \<Rightarrow> Inr (x > y)
      | _ \<Rightarrow> Inl TypeError)"

text \<open>The loop that fills \<^verbatim>\<open>formatted_steps\<close>; it stops at the first exception.\<close>

fun format_all :: "api_step list \<Rightarrow> py_error + string list" where
  "format_all [] = Inr []"
| "format_all (s # ss) =
     (case format_steps (get_steps s) of
        Inl e \<Rightarrow> Inl e
      | Inr f \<Rightarrow> (case format_all ss of Inl e \<Rightarrow> Inl e | Inr fs \<Rightarrow> Inr (f # fs)))"

text \<open>\<^verbatim>\<open>sum(1 for s in steps_data if s.get('steps', 0) > 0)\<close>\<close>

fun count_positive :: "api_step list \<Rightarrow> py_error + nat" where
  "count_positive [] = Inr 0"
| "count_positive (s # ss) =
     (case py_gt (get_steps s) (Num 0) of
        Inl e \<Rightarrow> Inl e
      | Inr b \<Rightarrow>
          (case count_positive ss of
             Inl e \<Rightarrow> Inl e
           | Inr k \<Rightarrow> Inr ((if b then 1 else 0) + k)))"

text \<open>
  \<^verbatim>\<open>max(iterable, default=d)\<close>: the first item is the candidate, and a later item
  replaces it when it compares greater.
\<close>

fun max_loop :: "raw \<Rightarrow> raw list \<Rightarrow> py_error + raw" where
  "max_loop m [] = Inr m"
| "max_loop m (x # xs) =
     (case py_gt x m of Inl e \<Rightarrow> Inl e | Inr b \<Rightarrow> max_loop (if b then x else m) xs)"

definition py_max_default :: "raw list \<Rightarrow> raw \<Rightarrow> py_error + raw" where
  "py_max_default xs d = (case xs of [] \<Rightarrow> Inr d | x # rest \<Rightarrow> max_loop x rest)"

text \<open>The value stored under a username: the keys \<^verbatim>\<open>'steps'\<close>, \<^verbatim>\<open>'total_completed'\<close>
  and \<^verbatim>\<open>'highest_steps'\<close>.\<close>

record aggregated =
  formatted_steps :: "string list"
  total_completed :: nat
  highest_steps :: raw

text \<open>The body of the \<^verbatim>\<open>try\<close> block after the username check.\<close>

definition aggregate_player :: "player \<Rightarrow> py_error + aggregated" where
  "aggregate_player p =
     (case format_all (player_steps p) of
        Inl e \<Rightarrow> Inl e
      | Inr fs \<Rightarrow>
          (case count_positive (player_steps p) of
             Inl e \<Rightarrow> Inl e
           | Inr tc \<Rightarrow>
               (case py_max_default (map get_steps (player_steps p)) (Num 0) of
                  Inl e \<Rightarrow> Inl e
                | Inr h \<Rightarrow>
                    Inr \<lparr>formatted_steps = fs, total_completed = tc, highest_steps = h\<rparr>)))"

text \<open>
  The loop over the batch. The dictionary \<^verbatim>\<open>all_players_data\<close> is an association list
  in insertion order; \<open>AList.update\<close> overwrites the value of a key that is present and
  appends a new key, as a Python dictionary does. A record without a username is skipped
  by \<^verbatim>\<open>continue\<close>, a record whose processing raises is skipped by the
  \<^verbatim>\<open>except Exception\<close> clause.
\<close>

fun process_loop :: "(string \<times> aggregated) list \<Rightarrow> player list \<Rightarrow> (string \<times> aggregated) list" where
  "process_loop all_players_data [] = all_players_data"
| "process_loop all_players_data (p # ps) =
     (case name p of
        None \<Rightarrow> process_loop all_players_data ps
      | Some username \<Rightarrow>
          if username = [] then process_loop all_players_data ps
          else (case aggregate_player p of
                  Inl e \<Rightarrow> process_loop all_players_data ps
                | Inr a \<Rightarrow> process_loop (AList.update username a all_players_data) ps))"

definition process_player_data :: "player list \<Rightarrow> (string \<times> aggregated) list" where
  "process_player_data players = process_loop [] players"

section \<open>Fetcher: \<^verbatim>\<open>get_all_game_data\<close>\<close>

text \<open>
  What \<^verbatim>\<open>get_game_data\<close> returns to the loop: \<open>NoData\<close> when the test
  \<^verbatim>\<open>not data\<close> succeeds (the request failed and \<^verbatim>\<open>None\<close> came back, or the JSON
  body is empty), otherwise \<open>Data\<close> with the list \<^verbatim>\<open>data.get('val', [])\<close>.
\<close>

datatype 'p reply = NoData | Data "'p list"

definition take_sz :: nat where
  "take_sz = 20"

definition max_retries :: nat where
  "max_retries = 3"

text \<open>
  The variables of the loop, and a log of the calls of \<^verbatim>\<open>get_game_data\<close> made so far:
  for each call the offset \<open>skip\<close>, the value of \<open>retry_count\<close> when it was made, and
  its reply.
\<close>

record 'p fetch_state =
  all_players :: "'p list"
  skip :: nat
  retry_count :: nat
  calls :: "(nat \<times> nat \<times> 'p reply) list"

definition fetch_init :: "'p fetch_state" where
  "fetch_init = \<lparr>all_players = [], skip = 0, retry_count = 0, calls = []\<rparr>"

text \<open>
  The \<^verbatim>\<open>while True\<close> loop. The remote API is the function \<open>api\<close>: \<open>api k s\<close> is the
  reply to the \<open>k\<close>-th call (counted from 0) when it asks for offset \<open>s\<close>. The loop need
  not end (an API that returns full pages for ever), so it runs on fuel, one unit per
  call; \<open>None\<close> means the fuel ran out before the loop ended.
\<close>

fun fetch_loop :: "(nat \<Rightarrow> nat \<Rightarrow> 'p reply) \<Rightarrow> nat \<Rightarrow> 'p fetch_state \<Rightarrow> 'p fetch_state option" where
  "fetch_loop api 0 st = None"
| "fetch_loop api (Suc fuel) st =
     (let data = api (length (calls st)) (skip st);
          st1 = st\<lparr>calls := calls st @ [(skip st, retry_count st, data)]\<rparr>
      in case data of
           NoData \<Rightarrow>
             if retry_count st1 < max_retries
             then fetch_loop api fuel (st1\<lparr>retry_count := retry_count st1 + 1\<rparr>)
             else Some st1
         | Data players \<Rightarrow>
             (let st2 = st1\<lparr>retry_count := 0\<rparr> in
              if length players = 0 then Some st2
              else (let st3 = st2\<lparr>all_players := all_players st2 @ players\<rparr> in
                    if length players < take_sz then Some st3
                    else fetch_loop api fuel (st3\<lparr>skip := skip st3 + take_sz\<rparr>))))"

definition get_all_game_data :: "(nat \<Rightarrow> nat \<Rightarrow> 'p reply) \<Rightarrow> nat \<Rightarrow> 'p list option" where
  "get_all_game_data api fuel = map_option all_players (fetch_loop api fuel fetch_init)"

text \<open>
  A paginated endpoint that holds the list \<open>ps\<close> of players and always answers: the page
  at offset \<open>s\<close> is \<^verbatim>\<open>ps[s : s + 20]\<close>.
\<close>

definition serve :: "'p list \<Rightarrow> nat \<Rightarrow> nat \<Rightarrow> 'p reply" where
  "serve ps k s = Data (take take_sz (drop s ps))"

text \<open>
  The same endpoint with transient failures: the \<open>k\<close>-th call fails when \<open>fails k\<close>.
\<close>

definition flaky :: "(nat \<Rightarrow> bool) \<Rightarrow> 'p list \<Rightarrow> nat \<Rightarrow> nat \<Rightarrow> 'p reply" where
  "flaky fails ps k s = (if fails k then NoData else Data (take take_sz (drop s ps)))"

fun succeeded :: "nat \<times> nat \<times> 'p reply \<Rightarrow> bool" where
  "succeeded (s, r, NoData) = False"
| "succeeded (s, r, Data players) = True"

fun page_of :: "nat \<times> nat \<times> 'p reply \<Rightarrow> 'p list" where
  "page_of (s, r, NoData) = []"
| "page_of (s, r, Data players) = players"

text \<open>The number of calls of a run that were answered with data.\<close>

definition successful_requests :: "(nat \<Rightarrow> nat \<Rightarrow> 'p reply) \<Rightarrow> nat \<Rightarrow> nat option" where
  "successful_requests api fuel =
     map_option (\<lambda>st. length (filter succeeded (calls st))) (fetch_loop api fuel fetch_init)"

text \<open>An endpoint that never answers.\<close>

definition unreachable :: "nat \<Rightarrow> nat \<Rightarrow> 'p reply" where
  "unreachable k s = NoData"

section \<open>Report: \<^verbatim>\<open>display_results\<close>\<close>

text \<open>
  The conversion of a display string back to a number:
  \<^verbatim>\<open>int(steps[i].replace(',', '').replace('k+', '30000').replace('-', '0'))\<close>
\<close>

definition parse_steps :: "string \<Rightarrow> py_error + int" where
  "parse_steps s = py_int (replace ''-'' ''0'' (replace ''k+'' ''30000'' (replace '','' [] s)))"

text \<open>\<^verbatim>\<open>int(...) if i < len(steps) and steps[i] != '-' else 0\<close>\<close>

definition comparable :: "string list \<Rightarrow> nat \<Rightarrow> py_error + int" where
  "comparable shown i =
     (if i < length shown \<and> shown ! i \<noteq> ''-'' then parse_steps (shown ! i) else Inr 0)"

text \<open>The list comprehension over \<^verbatim>\<open>enumerate(game_dates)\<close>, from index \<open>i\<close> on.\<close>

fun eval_entries :: "string list \<Rightarrow> nat \<Rightarrow> string list \<Rightarrow> py_error + int step list" where
  "eval_entries shown i [] = Inr []"
| "eval_entries shown i (date # dates) =
     (case comparable shown i of
        Inl e \<Rightarrow> Inl e
      | Inr v \<Rightarrow>
          (case eval_entries shown (Suc i) dates of
             Inl e \<Rightarrow> Inl e
           | Inr es \<Rightarrow> Inr (\<lparr>day = date, steps = Some v\<rparr> # es)))"

text \<open>\<^verbatim>\<open>while len(steps) < len(game_dates): steps.append('-')\<close>\<close>

definition pad_steps :: "string list \<Rightarrow> string list \<Rightarrow> string list" where
  "pad_steps shown game_dates = shown @ replicate (length game_dates - length shown) ''-''"

text \<open>The completion status of one player, from the display strings of the series.\<close>

definition player_completion :: "string list \<Rightarrow> string list \<Rightarrow> int \<Rightarrow> string \<Rightarrow> py_error + status" where
  "player_completion shown game_dates target current_date =
     (case eval_entries (pad_steps shown game_dates) 0 game_dates of
        Inl e \<Rightarrow> Inl e
      | Inr es \<Rightarrow> Inr (check_task_completion es target current_date))"

text \<open>A row of the report: ID, username, the padded series and the task status.\<close>

record row =
  row_id :: int
  row_username :: string
  row_steps :: "string list"
  row_status :: string

fun build_rows :: "(string \<times> int \<times> string list) list \<Rightarrow> string list \<Rightarrow> int \<Rightarrow> string \<Rightarrow> py_error + row list" where
  "build_rows [] game_dates target current_date = Inr []"
| "build_rows ((username, uid, shown) # rest) game_dates target current_date =
     (case player_completion shown game_dates target current_date of
        Inl e \<Rightarrow> Inl e
      | Inr completion \<Rightarrow>
          (case build_rows rest game_dates target current_date of
             Inl e \<Rightarrow> Inl e
           | Inr data \<Rightarrow>
               Inr (\<lparr>row_id = uid, row_username = username,
                     row_steps = pad_steps shown game_dates,
                     row_status = show_status completion\<rparr> # data)))"

text \<open>
  \<^verbatim>\<open>save_to_csv\<close> builds \<^verbatim>\<open>pd.DataFrame(data, columns=headers)\<close>. A row holds the
  ID, the username, the series and the status; the header holds one column per campaign
  day in place of the series. The data frame pads short rows, and raises ValueError when
  the widest row does not have as many columns as the header. Errors of the file system
  are not modelled.
\<close>

definition save_to_csv :: "row list \<Rightarrow> string list \<Rightarrow> py_error + row list" where
  "save_to_csv data game_dates =
     (if data = [] \<or> foldr (\<lambda>r. max (length (row_steps r))) data 0 = length game_dates
      then Inr data else Inl ValueError)"

text \<open>
  \<^verbatim>\<open>datetime.now().strftime('%Y-%m-%d')\<close> for the date \<open>(year, month, day)\<close>: the
  decimal numerals padded with zeros to four, two and two digits.
\<close>

fun pad_nat :: "nat \<Rightarrow> nat \<Rightarrow> string" where
  "pad_nat 0 n = []"
| "pad_nat (Suc w) n = pad_nat w (n div 10) @ [digit_char (n mod 10)]"

fun strftime_ymd :: "nat \<times> nat \<times> nat \<Rightarrow> string" where
  "strftime_ymd (y, m, d) = pad_nat 4 y @ ''-'' @ pad_nat 2 m @ ''-'' @ pad_nat 2 d"

text \<open>
  \<^verbatim>\<open>display_results\<close> either returns early with a message, or hands the rows to
  \<^verbatim>\<open>save_to_csv\<close>. The roster \<^verbatim>\<open>user_info\<close> maps a username to its ID; the current
  date (\<open>strftime_ymd\<close> of today) is a parameter.
\<close>

datatype report = NoExport string | Exported "row list"

definition display_results ::
  "(string \<times> aggregated) list \<Rightarrow> (string \<times> int) list \<Rightarrow> string list \<Rightarrow> int \<Rightarrow> string
     \<Rightarrow> py_error + report" where
  "display_results player_data user_info game_dates target current_date =
     (if player_data = [] then Inr (NoExport ''No data found'')
      else
        (let our_data =
               foldl (\<lambda>d (username, uid).
                        case map_of player_data username of
                          Some a \<Rightarrow> AList.update username (uid, formatted_steps a) d
                        | None \<Rightarrow> d) [] user_info
         in if our_data = [] then Inr (NoExport ''No data found for our users'')
            else
              (let sorted_players = sort_key (\<lambda>x. fst (snd x)) our_data
               in case build_rows sorted_players game_dates target current_date of
                    Inl e \<Rightarrow> Inl e
                  | Inr data \<Rightarrow>
                      (case save_to_csv data game_dates of
                         Inl e \<Rightarrow> Inl e
                       | Inr saved \<Rightarrow> Inr (Exported saved)))))"

section \<open>The run: \<^verbatim>\<open>main\<close>\<close>

text \<open>
  What a run leaves behind: the last message printed, the exit status of the process,
  and the rows written to the CSV export (\<open>None\<close> when nothing is exported). A run that
  returns from \<^verbatim>\<open>main\<close> ends with exit status 0; \<^verbatim>\<open>sys.exit(1)\<close> and an uncaught
  exception end it with status 1.
\<close>

record run_result =
  message :: string
  exit_status :: nat
  exported :: "row list option"

definition halt :: "string \<Rightarrow> nat \<Rightarrow> run_result" where
  "halt msg code = \<lparr>message = msg, exit_status = code, exported = None\<rparr>"

text \<open>The campaign overview; only the step target takes part in decisions.\<close>

record game_info =
  game_name :: string
  info_step_target :: int

text \<open>An uncaught exception ends the run with a traceback and exit status 1.\<close>

definition crash :: run_result where
  "crash = halt ''Traceback (most recent call last)'' 1"

text \<open>
  \<^verbatim>\<open>[step['day'] for step in ...]\<close>: an entry without the key \<^verbatim>\<open>'day'\<close> raises
  KeyError.
\<close>

fun days_of :: "api_step list \<Rightarrow> py_error + string list" where
  "days_of [] = Inr []"
| "days_of (s # ss) =
     (case raw_day s of
        None \<Rightarrow> Inl KeyError
      | Some d \<Rightarrow> (case days_of ss of Inl e \<Rightarrow> Inl e | Inr ds \<Rightarrow> Inr (d # ds)))"

text \<open>
  \<^verbatim>\<open>game_dates\<close> as \<^verbatim>\<open>main\<close> reads them from the first player of the first page.
\<close>

definition first_page_dates :: "player reply \<Rightarrow> py_error + string list" where
  "first_page_dates initial_data =
     (case initial_data of
        NoData \<Rightarrow> Inr []
      | Data [] \<Rightarrow> Inr []
      | Data (first_player # others) \<Rightarrow> days_of (player_steps first_player))"

text \<open>
  The inputs of a run: the command line, the roster as \<^verbatim>\<open>get_usernames_from_csv\<close>
  returns it (empty when the file is unreadable or has no usable row), the overview as
  \<^verbatim>\<open>get_game_overview\<close> returns it (\<open>None\<close> on failure), the remote API, the fuel of the
  fetch loop and the current date. Call 0 of the API is the request for the first page in
  \<^verbatim>\<open>main\<close>; the fetch loop makes the calls after it.
\<close>

definition main ::
  "string list \<Rightarrow> (string \<times> int) list \<Rightarrow> game_info option \<Rightarrow> (nat \<Rightarrow> nat \<Rightarrow> player reply)
     \<Rightarrow> nat \<Rightarrow> string \<Rightarrow> run_result option" where
  "main argv user_info overview api fuel current_date =
     (if length argv \<noteq> 2 then Some (halt ''Usage: python moonwalk_tracker.py <game_code>'' 1)
      else if user_info = [] then
        Some (halt ''Failed to read user information from CSV file'' 0)
      else
        (case overview of
           None \<Rightarrow> Some (halt ''Failed to get game overview'' 0)
         | Some info \<Rightarrow>
             (case api 0 0 of
                NoData \<Rightarrow> Some (halt ''Failed to get player data'' 0)
              | Data val \<Rightarrow>
                  (case first_page_dates (Data val) of
                     Inl e \<Rightarrow> Some crash
                   | Inr game_dates \<Rightarrow>
                       if game_dates = [] then Some (halt ''Failed to get game dates'' 0)
                       else
                         (case get_all_game_data (\<lambda>k. api (Suc k)) fuel of
                            None \<Rightarrow> None
                          | Some players \<Rightarrow>
                              if players = [] then Some (halt ''No player data found'' 0)
                              else
                                (let player_data = process_player_data players
                                 in if player_data = [] then
                                      Some (halt ''Error processing data'' 0)
                                    else
                                      (case display_results player_data user_info game_dates
                                              (info_step_target info) current_date of
                                         Inl e \<Rightarrow> Some crash
                                       | Inr (NoExport msg) \<Rightarrow> Some (halt msg 0)
                                       | Inr (Exported data) \<Rightarrow>
                                           Some \<lparr>message = ''Data saved'', exit_status = 0,
                                                 exported = Some data\<rparr>)))))))"

section \<open>Notions used to state the properties\<close>

text \<open>The username test of \<^verbatim>\<open>process_player_data\<close>: \<^verbatim>\<open>not username\<close> fails.\<close>

definition valid_username :: "player \<Rightarrow> bool" where
  "valid_username p = (case name p of None \<Rightarrow> False | Some username \<Rightarrow> username \<noteq> [])"

definition username :: "player \<Rightarrow> string" where
  "username p = (case name p of None \<Rightarrow> [] | Some u \<Rightarrow> u)"

text \<open>The body of the \<^verbatim>\<open>try\<close> block raises on the record.\<close>

definition raises :: "player \<Rightarrow> bool" where
  "raises p = (case aggregate_player p of Inl e \<Rightarrow> True | Inr a \<Rightarrow> False)"

text \<open>The loop stores the record: it has a username and its processing does not raise.\<close>

definition accepted :: "player \<Rightarrow> bool" where
  "accepted p \<longleftrightarrow> valid_username p \<and> \<not> raises p"

text \<open>Every step value of the record is a number, or absent.\<close>

definition numeric_steps :: "player \<Rightarrow> bool" where
  "numeric_steps p =
     list_all (\<lambda>s. case get_steps s of Num n \<Rightarrow> True | Str t \<Rightarrow> False | Null \<Rightarrow> False
                       | NaN \<Rightarrow> False)
       (player_steps p)"

text \<open>
  The highest step count in the words of the specification: the maximum over the
  entries that normalize to \<open>Numeric\<close> (a count \<open>n\<close> with \<open>0 < n < 30000\<close>), with missing
  and capped entries ignored, and 0 when nothing is left.
\<close>

definition spec_highest_steps :: "api_step list \<Rightarrow> int" where
  "spec_highest_steps ss =
     (let ns = [n. Num n \<leftarrow> map get_steps ss, 0 < n \<and> n < 30000]
      in if ns = [] then 0 else Max (set ns))"

text \<open>
  The highest step count as the code computes it, stated on the raw values of a player:
  0 without values; NaN when the first value is NaN (nothing compares greater than NaN);
  otherwise the maximum of the numbers among the values, with no number left out (a NaN
  after the first value never compares greater).
\<close>

definition numbers :: "raw list \<Rightarrow> int list" where
  "numbers vs = [n. Num n \<leftarrow> vs]"

definition literal_maximum :: "raw list \<Rightarrow> raw" where
  "literal_maximum vs =
     (if vs = [] then Num 0 else if hd vs = NaN then NaN else Num (Max (set (numbers vs))))"

text \<open>The value is a number or NaN: neither a string nor null.\<close>

definition is_number :: "raw \<Rightarrow> bool" where
  "is_number v = (case v of Num n \<Rightarrow> True | NaN \<Rightarrow> True | Str t \<Rightarrow> False | Null \<Rightarrow> False)"

text \<open>
  Calendar dates as triples \<open>(year, month, day)\<close>: \<open>date_le a b\<close> says that \<open>a\<close> is at or
  before \<open>b\<close>. A triple is printable when the year has at most four digits and month and
  day at most two.
\<close>

fun date_le :: "nat \<times> nat \<times> nat \<Rightarrow> nat \<times> nat \<times> nat \<Rightarrow> bool" where
  "date_le (y, m, d) (y', m', d') \<longleftrightarrow> y < y' \<or> (y = y' \<and> (m < m' \<or> (m = m' \<and> d \<le> d')))"

fun printable :: "nat \<times> nat \<times> nat \<Rightarrow> bool" where
  "printable (y, m, d) \<longleftrightarrow> y < 10000 \<and> m < 100 \<and> d < 100"

text \<open>
  An evaluator entry for a calendar date: the key \<^verbatim>\<open>'day'\<close> holds the date as
  \<open>strftime_ymd\<close> prints it, followed by \<open>suffix\<close>, which is empty or a time that starts
  with \<^verbatim>\<open>'T'\<close> (as in \<^verbatim>\<open>'2024-01-03T00:00:00.000Z'\<close>).
\<close>

fun dated :: "(nat \<times> nat \<times> nat) \<times> string \<times> int option \<Rightarrow> int step" where
  "dated (date, suffix, v) = \<lparr>day = strftime_ymd date @ suffix, steps = v\<rparr>"

fun time_suffix :: "string \<Rightarrow> bool" where
  "time_suffix [] = True"
| "time_suffix (c # cs) = (c = CHR ''T'')"

text \<open>
  A batch of 100 records with distinct usernames and one step entry each, in which
  record 57 (index 56) has no username.
\<close>

definition batch100 :: "player list" where
  "batch100 =
     map (\<lambda>i. \<lparr>name = (if i = 56 then None else Some (str_nat i)),
               player_steps = [\<lparr>raw_day = Some ''2024-01-01'', raw_steps = Some (Num (int i))\<rparr>]\<rparr>)
       [0..<100]"

text \<open>
  The call that has to follow a logged call: after a failure the same offset with the
  retry counter increased by one, after a success the next offset with the counter at
  zero.
\<close>

fun next_call :: "nat \<times> nat \<times> 'p reply \<Rightarrow> nat \<times> nat" where
  "next_call (s, r, NoData) = (s, r + 1)"
| "next_call (s, r, Data players) = (s + take_sz, 0)"

text \<open>
  A log is chained from \<open>(s, r)\<close> when its first call is made at offset \<open>s\<close> with retry
  counter \<open>r\<close>, every call is followed by the call that has to follow it, and no call is
  made with a retry counter above \<open>max_retries\<close>.
\<close>

fun chained :: "nat \<times> nat \<Rightarrow> (nat \<times> nat \<times> 'p reply) list \<Rightarrow> bool" where
  "chained cur [] = True"
| "chained cur (c # cs) =
     ((fst c, fst (snd c)) = cur \<and> fst (snd c) \<le> max_retries \<and> chained (next_call c) cs)"

text \<open>The offset and retry counter that a chained log leads to.\<close>

fun after_calls :: "nat \<times> nat \<Rightarrow> (nat \<times> nat \<times> 'p reply) list \<Rightarrow> nat \<times> nat" where
  "after_calls cur [] = cur"
| "after_calls cur (c # cs) = after_calls (next_call c) cs"

text \<open>
  An API that follows a script: the \<open>k\<close>-th call gets the \<open>k\<close>-th outcome of the list,
  and every call after the end of the script fails.
\<close>

definition scripted :: "'p reply list \<Rightarrow> nat \<Rightarrow> nat \<Rightarrow> 'p reply" where
  "scripted rs k s = (if k < length rs then rs ! k else NoData)"

text \<open>
  The retry scenario: two full pages, then two failures and a success at offset 40, then
  only failures at offset 60.
\<close>

definition retry_script :: "nat reply list" where
  "retry_script =
     [Data [0..<20], Data [20..<40], NoData, NoData, Data [40..<60],
      NoData, NoData, NoData, NoData]"

text \<open>Page \<open>i\<close> of the list \<open>ps\<close>: \<^verbatim>\<open>ps[20 * i : 20 * i + 20]\<close>.\<close>

definition page_at :: "'p list \<Rightarrow> nat \<Rightarrow> 'p list" where
  "page_at ps i = take take_sz (drop (take_sz * i) ps)"

text \<open>
  A run against an endpoint that holds \<open>ps\<close> ended as it should: all of \<open>ps\<close> is returned,
  the number of successful calls is \<open>length ps div 20 + 1\<close>, and the last call of the run
  is a successful one that brought fewer than 20 records.
\<close>

definition ended_on_short_page :: "'p list \<Rightarrow> 'p fetch_state \<Rightarrow> bool" where
  "ended_on_short_page ps st \<longleftrightarrow>
     all_players st = ps
     \<and> length (filter succeeded (calls st)) = length ps div take_sz + 1
     \<and> calls st \<noteq> [] \<and> succeeded (last (calls st))
     \<and> length (page_of (last (calls st))) < take_sz"

text \<open>Calls 1 and 2 fail, every other call is answered.\<close>

definition two_failures :: "nat \<Rightarrow> bool" where
  "two_failures k \<longleftrightarrow> k = 1 \<or> k = 2"

section \<open>Decimal numerals and string operations: basic facts\<close>

lemma is_digit_digit_char: "d < 10 \<Longrightarrow> is_digit (digit_char d)"
proof -
  assume "d < 10"
  then have "d \<in> {0,1,2,3,4,5,6,7,8,9}" by auto
  then show ?thesis by (auto simp: is_digit_def digit_char_def)
qed

lemma digit_val_digit_char: "d < 10 \<Longrightarrow> digit_val (digit_char d) = d"
proof -
  assume "d < 10"
  then have "d \<in> {0,1,2,3,4,5,6,7,8,9}" by auto
  then show ?thesis by (auto simp: digit_val_def digit_char_def)
qed

lemma str_nat_digits: "list_all is_digit (str_nat n)"
proof (induction n rule: str_nat.induct)
  case (1 n)
  show ?case
  proof (cases "n < 10")
    case True
    then show ?thesis by (simp add: str_nat.simps [of n] is_digit_digit_char)
  next
    case False
    with 1 show ?thesis by (simp add: str_nat.simps [of n] is_digit_digit_char)
  qed
qed

lemma str_nat_nonempty: "str_nat n \<noteq> []"
  by (simp add: str_nat.simps [of n])

lemma digits_val_snoc: "digits_val (s @ [c]) = 10 * digits_val s + digit_val c"
  by (simp add: digits_val_def)

lemma digits_val_str_nat: "digits_val (str_nat n) = n"
proof (induction n rule: str_nat.induct)
  case (1 n)
  show ?case
  proof (cases "n < 10")
    case True
    then show ?thesis by (simp add: str_nat.simps [of n] digits_val_def digit_val_digit_char)
  next
    case False
    with 1 show ?thesis
      by (simp add: str_nat.simps [of n] digits_val_snoc digit_val_digit_char)
  qed
qed

lemma filter_commas: "filter (\<lambda>c. c \<noteq> CHR '','') (commas ds) = filter (\<lambda>c. c \<noteq> CHR '','') ds"
proof (induction ds rule: commas.induct)
  case (1 ds)
  show ?case
  proof (cases "length ds \<le> 3")
    case True
    then show ?thesis by (simp add: commas.simps [of ds])
  next
    case False
    have "filter (\<lambda>c. c \<noteq> CHR '','') (commas ds) =
          filter (\<lambda>c. c \<noteq> CHR '','') (take (length ds - 3) ds) @ filter (\<lambda>c. c \<noteq> CHR '','') (drop (length ds - 3) ds)"
      using False 1 by (simp add: commas.simps [of ds])
    also have "\<dots> = filter (\<lambda>c. c \<noteq> CHR '','') (take (length ds - 3) ds @ drop (length ds - 3) ds)"
      by (simp only: filter_append)
    finally show ?thesis by simp
  qed
qed

lemma replace_nonempty_absent:
  "old \<noteq> [] \<Longrightarrow> hd old \<notin> set s \<Longrightarrow> replace_nonempty old new s = s"
proof (induction s)
  case Nil
  then show ?case by (simp add: replace_nonempty.simps [of old new "[]"])
next
  case (Cons c cs)
  from Cons.prems have ne: "take (length old) (c # cs) \<noteq> old"
    by (cases old) auto
  from Cons show ?case
    using ne by (simp add: replace_nonempty.simps [of old new "c # cs"])
qed

lemma replace_single_delete:
  "replace_nonempty [x] [] s = filter (\<lambda>c. c \<noteq> x) s"
proof (induction s)
  case Nil
  then show ?case by (simp add: replace_nonempty.simps [of _ _ "[]"])
next
  case (Cons c cs)
  then show ?case by (simp add: replace_nonempty.simps [of _ _ "c # cs"])
qed

lemma split_on_absent: "c \<notin> set s \<Longrightarrow> split_on c s = [s]"
  by (induction s) auto

lemma is_digit_not_space: "is_digit c \<Longrightarrow> \<not> is_space c"
  by (auto simp: is_digit_def is_space_def)

lemma strip_ws_digits: "list_all is_digit s \<Longrightarrow> strip_ws s = s"
proof -
  assume a: "list_all is_digit s"
  have 1: "dropWhile is_space s = s"
    using a by (cases s) (auto simp: is_digit_not_space)
  have 2: "dropWhile is_space (rev s) = rev s"
    using a by (cases "rev s") (auto simp: is_digit_not_space list_all_iff dest!: arg_cong [where f = set])
  show ?thesis by (simp add: strip_ws_def 1 2)
qed

lemma py_int_digits:
  assumes "list_all is_digit s" "s \<noteq> []"
  shows "py_int s = Inr (int (digits_val s))"
proof -
  have hd: "is_digit (hd s)" using assms by (cases s) auto
  then have sign: "hd s \<noteq> CHR ''-''" "hd s \<noteq> CHR ''+''"
    by (auto simp: is_digit_def)
  have "CHR ''_'' \<notin> set s" using assms(1) by (auto simp: list_all_iff is_digit_def)
  then have sp: "split_on (CHR ''_'') s = [s]" by (rule split_on_absent)
  show ?thesis
    using assms sign sp by (simp add: py_int_def strip_ws_digits Let_def)
qed

lemma replace_comma: "replace '','' [] s = filter (\<lambda>c. c \<noteq> CHR '','') s"
  by (simp add: replace_def replace_single_delete)

lemma replace_absent: "old \<noteq> [] \<Longrightarrow> hd old \<notin> set s \<Longrightarrow> replace old new s = s"
  by (simp add: replace_def replace_nonempty_absent)

lemma filter_digits: "list_all is_digit ds \<Longrightarrow> filter (\<lambda>c. c \<noteq> CHR '','') ds = ds"
  by (induction ds) (auto simp: is_digit_def)

lemma digits_exclude: "list_all is_digit ds \<Longrightarrow> \<not> is_digit c \<Longrightarrow> c \<notin> set ds"
  by (auto simp: list_all_iff)

lemma parse_steps_commas:
  assumes "list_all is_digit ds" "ds \<noteq> []"
  shows "parse_steps (commas ds) = Inr (int (digits_val ds))"
proof -
  have k: "CHR ''k'' \<notin> set ds"
    by (rule digits_exclude [OF assms(1)]) (simp add: is_digit_def)
  have m: "CHR ''-'' \<notin> set ds"
    by (rule digits_exclude [OF assms(1)]) (simp add: is_digit_def)
  have e1: "replace '','' [] (commas ds) = ds"
    by (simp add: replace_comma filter_commas filter_digits assms(1))
  have e2: "replace ''k+'' ''30000'' ds = ds"
    using k by (simp add: replace_absent)
  have e3: "replace ''-'' ''0'' ds = ds"
    using m by (simp add: replace_absent)
  have "parse_steps (commas ds) = py_int ds"
    unfolding parse_steps_def e1 e2 e3 ..
  then show ?thesis
    by (simp only: py_int_digits [OF assms])
qed

lemma commas_digits_not_dash:
  assumes "list_all is_digit ds"
  shows "commas ds \<noteq> ''-''"
proof
  assume "commas ds = ''-''"
  then have "filter (\<lambda>c. c \<noteq> CHR '','') (commas ds) = ''-''" by simp
  then have "ds = ''-''" by (simp add: filter_commas filter_digits assms)
  with assms show False by (simp add: is_digit_def)
qed

section \<open>The display round trip\<close>

text \<open>
  Claim C10. For every integer \<open>n\<close> with \<open>0 < n < 30000\<close>, \<^verbatim>\<open>format_steps\<close> shows \<open>n\<close>
  as the numeral with thousands separators, and the conversion that
  \<^verbatim>\<open>display_results\<close> applies before the evaluation (separators stripped, the two
  other replacements, then \<^verbatim>\<open>int\<close>) gives back exactly \<open>n\<close>.
\<close>

theorem display_round_trip:
  "0 < n \<Longrightarrow> n < 30000 \<Longrightarrow>
     format_steps (Num n) = Inr (format_comma n)
     \<and> parse_steps (format_comma n) = Inr n
     \<and> comparable [format_comma n] 0 = Inr n"
  by (simp add: format_steps_def format_comma_def comparable_def parse_steps_commas
      commas_digits_not_dash str_nat_digits str_nat_nonempty digits_val_str_nat)

lemma comma_12345: "format_comma 12345 = ''12,345''"
  by (simp add: format_comma_def str_nat.simps commas.simps digit_char_def)

lemmas py_int_eval =
  py_int_def strip_ws_def is_space_def is_digit_def digits_val_def digit_val_def

lemmas parse_steps_eval = parse_steps_def replace_def replace_nonempty.simps py_int_eval

theorem display_round_trip_witness:
  "(0::int) < 12345 \<and> (12345::int) < 30000
     \<and> format_steps (Num 12345) = Inr ''12,345''
     \<and> parse_steps ''12,345'' = Inr 12345
     \<and> comparable [''12,345''] 0 = Inr 12345"
  using display_round_trip [of 12345] by (simp add: comma_12345)

section \<open>Normalization of raw step values\<close>

text \<open>
  Claim C2, as the code has it. \<^verbatim>\<open>format_steps\<close> shows a count \<open>n\<close> with
  \<open>0 < n < 30000\<close> as its numeral with thousands separators, a count of at least 30000 as
  \<^verbatim>\<open>'30k+'\<close>, returns a string that contains \<^verbatim>\<open>'k+'\<close> unchanged (so the marker
  \<^verbatim>\<open>'30k+'\<close> stays what it is), and shows null, NaN, zero and an absent entry as
  \<^verbatim>\<open>'-'\<close>. A string without \<^verbatim>\<open>'k+'\<close> is not shown as missing: the comparison with
  30000 raises TypeError.
\<close>

theorem format_steps_normalization:
  "(0 < n \<and> n < 30000 \<longrightarrow>
      format_steps (Num n) = Inr (format_comma n)
      \<and> filter (\<lambda>c. c \<noteq> CHR '','') (format_comma n) = str_nat (nat n))
   \<and> (30000 \<le> m \<longrightarrow> format_steps (Num m) = Inr ''30k+'')
   \<and> (has_sub ''k+'' s \<longrightarrow> format_steps (Str s) = Inr s)
   \<and> format_steps (Str ''30k+'') = Inr ''30k+''
   \<and> format_steps Null = Inr ''-''
   \<and> format_steps NaN = Inr ''-''
   \<and> format_steps (Num 0) = Inr ''-''
   \<and> format_steps (get_steps \<lparr>raw_day = d, raw_steps = None\<rparr>) = Inr ''-''
   \<and> (\<not> has_sub ''k+'' t \<longrightarrow> format_steps (Str t) = Inl TypeError)"
  by (simp add: format_steps_def format_comma_def get_steps_def filter_commas filter_digits
      str_nat_digits)

theorem format_steps_normalization_witness:
  "format_steps (Num 12345) = Inr ''12,345''
   \<and> format_steps (Num 45000) = Inr ''30k+''
   \<and> has_sub ''k+'' ''45k+'' \<and> format_steps (Str ''45k+'') = Inr ''45k+''
   \<and> \<not> has_sub ''k+'' ''N/A'' \<and> format_steps (Str ''N/A'') = Inl TypeError"
  using format_steps_normalization [of 12345 45000 "''45k+''" undefined "''N/A''"]
  by (simp add: comma_12345)

text \<open>
  The claim C2 as stated sends every non-numeric value to the missing marker; the string
  \<^verbatim>\<open>'N/A'\<close> raises instead.
\<close>

theorem non_numeric_string_raises:
  "format_steps (Str ''N/A'') = Inl TypeError \<and> format_steps (Str ''N/A'') \<noteq> Inr ''-''"
  by (simp add: format_steps_def)

section \<open>The comparable count of a capped day\<close>

lemma parse_30k: "parse_steps ''30k+'' = Inr 3030000"
  by (simp add: parse_steps_eval)

text \<open>
  Claim C1 gives a capped day the comparable count 30000. In the code a day with 45000
  raw steps is shown as \<^verbatim>\<open>'30k+'\<close>, and the conversion in \<^verbatim>\<open>display_results\<close> turns
  this marker into 3030000 (the replacement of \<^verbatim>\<open>'k+'\<close> by \<^verbatim>\<open>'30000'\<close> keeps the
  leading \<^verbatim>\<open>'30'\<close>). With a step target of 50000 the day is counted as completed, and
  the player is reported \<open>Complete\<close>.
\<close>

theorem capped_day_parsed_as_3030000:
  "format_steps (Num 45000) = Inr ''30k+''
   \<and> comparable [''30k+''] 0 = Inr 3030000
   \<and> player_completion [''30k+''] [''2024-01-01''] 50000 ''2024-06-01'' = Inr Complete"
  by (simp add: format_steps_def player_completion_def pad_steps_def comparable_def parse_30k
      check_task_completion_def step_date_def entry_steps_def)

section \<open>The completion evaluation\<close>

lemma hd_split_on: "hd (split_on c d) = takeWhile (\<lambda>x. x \<noteq> c) d"
  by (induction d) simp_all

lemma takeWhile_absent: "c \<notin> set d \<Longrightarrow> takeWhile (\<lambda>x. x \<noteq> c) d = d"
  by (induction d) auto

lemma step_date_takeWhile: "step_date d = takeWhile (\<lambda>c. c \<noteq> CHR ''T'') d"
  by (cases "CHR ''T'' \<in> set d") (simp_all add: step_date_def hd_split_on takeWhile_absent)

lemma of_char_digit_char: "a < 10 \<Longrightarrow> (of_char (digit_char a) :: nat) = 48 + a"
proof -
  assume "a < 10"
  then have "a \<in> {0,1,2,3,4,5,6,7,8,9}" by auto
  then show ?thesis by (auto simp: digit_char_def)
qed

lemma digit_char_less: "a < 10 \<Longrightarrow> b < 10 \<Longrightarrow> digit_char a < digit_char b \<longleftrightarrow> a < b"
  by (simp add: less_char_def of_char_digit_char)

lemma digit_char_eq: "a < 10 \<Longrightarrow> b < 10 \<Longrightarrow> digit_char a = digit_char b \<longleftrightarrow> a = b"
proof
  assume a: "a < 10" and b: "b < 10" and e: "digit_char a = digit_char b"
  from e have "digit_val (digit_char a) = digit_val (digit_char b)" by (rule arg_cong)
  then show "a = b" by (simp only: digit_val_digit_char [OF a] digit_val_digit_char [OF b])
qed simp

lemma length_pad_nat: "length (pad_nat w n) = w"
  by (induction w arbitrary: n) simp_all

lemma pad_nat_digits: "list_all is_digit (pad_nat w n)"
  by (induction w arbitrary: n) (simp_all add: is_digit_digit_char)

lemma lex_append_less:
  "length xs = length ys \<Longrightarrow> xs @ us < ys @ vs \<longleftrightarrow> xs < ys \<or> (xs = ys \<and> us < vs)"
  for xs ys :: "'a::linorder list"
  by (induction xs ys rule: list_induct2) auto

lemma lex_append_le:
  "length xs = length ys \<Longrightarrow> xs @ us \<le> ys @ vs \<longleftrightarrow> xs < ys \<or> (xs = ys \<and> us \<le> vs)"
  for xs ys :: "'a::linorder list"
  by (induction xs ys rule: list_induct2) auto


lemma div_mod_less:
  "n < m \<longleftrightarrow> n div 10 < m div 10 \<or> (n div 10 = m div 10 \<and> n mod 10 < m mod 10)"
  for n m :: nat
proof -
  define a where "a = n div 10"
  define b where "b = n mod 10"
  define c where "c = m div 10"
  define d where "d = m mod 10"
  have n: "n = 10 * a + b" and m: "m = 10 * c + d" by (simp_all add: a_def b_def c_def d_def)
  have "b < 10" "d < 10" by (simp_all add: b_def d_def)
  then have "10 * a + b < 10 * c + d \<longleftrightarrow> a < c \<or> (a = c \<and> b < d)" by arith
  then have "n < m \<longleftrightarrow> a < c \<or> (a = c \<and> b < d)" by (simp only: n [symmetric] m [symmetric])
  then show ?thesis by (simp only: a_def b_def c_def d_def)
qed

lemma div_mod_eq:
  "n = m \<longleftrightarrow> n div 10 = m div 10 \<and> n mod 10 = m mod 10" for n m :: nat
  by (metis div_mult_mod_eq)


lemma pad_nat_order:
  "n < 10 ^ w \<Longrightarrow> m < 10 ^ w \<Longrightarrow>
     (pad_nat w n < pad_nat w m \<longleftrightarrow> n < m) \<and> (pad_nat w n = pad_nat w m \<longleftrightarrow> n = m)"
proof (induction w arbitrary: n m)
  case 0
  then show ?case by simp
next
  case (Suc w)
  from Suc.prems have "n div 10 < 10 ^ w" "m div 10 < 10 ^ w"
    by (simp_all add: less_mult_imp_div_less mult.commute)
  from Suc.IH [OF this]
  have lt: "pad_nat w (n div 10) < pad_nat w (m div 10) \<longleftrightarrow> n div 10 < m div 10"
    and eq: "pad_nat w (n div 10) = pad_nat w (m div 10) \<longleftrightarrow> n div 10 = m div 10"
    by simp_all
  have len: "length (pad_nat w (n div 10)) = length (pad_nat w (m div 10))"
    by (simp add: length_pad_nat)
  have dl: "digit_char (n mod 10) < digit_char (m mod 10) \<longleftrightarrow> n mod 10 < m mod 10"
    by (rule digit_char_less) simp_all
  have de: "digit_char (n mod 10) = digit_char (m mod 10) \<longleftrightarrow> n mod 10 = m mod 10"
    by (rule digit_char_eq) simp_all
  have "pad_nat (Suc w) n < pad_nat (Suc w) m \<longleftrightarrow>
      n div 10 < m div 10 \<or> (n div 10 = m div 10 \<and> n mod 10 < m mod 10)"
    by (simp only: pad_nat.simps lex_append_less [OF len] lt eq Cons_less_Cons dl de
        not_less_Nil simp_thms)
  then have l: "pad_nat (Suc w) n < pad_nat (Suc w) m \<longleftrightarrow> n < m"
    by (simp only: div_mod_less [of n m])
  have "pad_nat (Suc w) n = pad_nat (Suc w) m \<longleftrightarrow>
      n div 10 = m div 10 \<and> n mod 10 = m mod 10"
    using len by (simp add: eq de)
  then have e: "pad_nat (Suc w) n = pad_nat (Suc w) m \<longleftrightarrow> n = m"
    by (simp only: div_mod_eq [of n m])
  from l e show ?case by simp
qed


lemma pad_nat_4: "y < 10000 \<Longrightarrow> y' < 10000 \<Longrightarrow>
    (pad_nat 4 y < pad_nat 4 y' \<longleftrightarrow> y < y') \<and> (pad_nat 4 y = pad_nat 4 y' \<longleftrightarrow> y = y')"
  using pad_nat_order [of y 4 y'] by simp

lemma pad_nat_2: "m < 100 \<Longrightarrow> m' < 100 \<Longrightarrow>
    (pad_nat 2 m < pad_nat 2 m' \<longleftrightarrow> m < m') \<and> (pad_nat 2 m = pad_nat 2 m' \<longleftrightarrow> m = m')"
  using pad_nat_order [of m 2 m'] by simp

lemma strftime_le:
  assumes "printable a" "printable b"
  shows "strftime_ymd a \<le> strftime_ymd b \<longleftrightarrow> date_le a b"
proof -
  obtain y m d where a: "a = (y, m, d)" by (cases a)
  obtain y' m' d' where b: "b = (y', m', d')" by (cases b)
  from assms have r: "y < 10000" "m < 100" "d < 100" "y' < 10000" "m' < 100" "d' < 100"
    by (simp_all add: a b)
  have l4: "length (pad_nat 4 y) = length (pad_nat 4 y')"
    and l2: "length (pad_nat 2 m) = length (pad_nat 2 m')"
    by (simp_all only: length_pad_nat)
  have dd: "pad_nat 2 d \<le> pad_nat 2 d' \<longleftrightarrow> d \<le> d'"
    using pad_nat_2 [OF r(3) r(6)] by (auto simp: le_less)
  have "strftime_ymd a \<le> strftime_ymd b \<longleftrightarrow>
      pad_nat 4 y < pad_nat 4 y' \<or> (pad_nat 4 y = pad_nat 4 y' \<and>
        (pad_nat 2 m < pad_nat 2 m' \<or> (pad_nat 2 m = pad_nat 2 m' \<and> pad_nat 2 d \<le> pad_nat 2 d')))"
    unfolding a b strftime_ymd.simps
    by (simp only: lex_append_le [OF l4] lex_append_le [OF l2] append_Cons append_Nil
        Cons_le_Cons simp_thms less_irrefl)
  then show ?thesis
    using pad_nat_4 [OF r(1) r(4)] pad_nat_2 [OF r(2) r(5)] dd by (simp add: a b)
qed

lemma strftime_no_T: "CHR ''T'' \<notin> set (strftime_ymd a)"
proof -
  obtain y m d where a: "a = (y, m, d)" by (cases a)
  have "\<not> is_digit (CHR ''T'')" by (simp add: is_digit_def)
  then have "CHR ''T'' \<notin> set (pad_nat w n)" for w n
    using pad_nat_digits [of w n] by (rule digits_exclude [rotated])
  then show ?thesis by (simp add: a)
qed

lemma takeWhile_time_suffix:
  "time_suffix suffix \<Longrightarrow> takeWhile (\<lambda>c. c \<noteq> CHR ''T'') (strftime_ymd a @ suffix) = strftime_ymd a"
proof -
  assume t: "time_suffix suffix"
  have "takeWhile (\<lambda>c. c \<noteq> CHR ''T'') (strftime_ymd a @ suffix)
      = strftime_ymd a @ takeWhile (\<lambda>c. c \<noteq> CHR ''T'') suffix"
    using strftime_no_T [of a] by (intro takeWhile_append2) auto
  moreover have "takeWhile (\<lambda>c. c \<noteq> CHR ''T'') suffix = []"
    using t by (cases suffix) simp_all
  ultimately show ?thesis by simp
qed

lemma count_days_eq:
  "count_days t cur xs (c, r) =
     (c + length (filter (\<lambda>e. step_date (day e) \<le> cur \<and> entry_steps e \<ge> t) xs),
      r + length (filter (\<lambda>e. step_date (day e) \<le> cur) xs))"
  by (induction xs arbitrary: c r) simp_all

lemma filter_conj_le: "length (filter (\<lambda>e. P e \<and> Q e) xs) \<le> length (filter P xs)"
  by (induction xs) auto

lemma completion_by_counts:
  "check_task_completion steps_data target current_date =
     (let required_days =
            length (filter (\<lambda>e. takeWhile (\<lambda>c. c \<noteq> CHR ''T'') (day e) \<le> current_date) steps_data);
          completed_days =
            length (filter (\<lambda>e. takeWhile (\<lambda>c. c \<noteq> CHR ''T'') (day e) \<le> current_date
                                 \<and> entry_steps e \<ge> target) steps_data)
      in if required_days = 0 then NotYetDue
         else if completed_days = required_days then Complete
         else Failed completed_days required_days)"
  by (simp add: check_task_completion_def count_days_eq Let_def step_date_takeWhile)

lemma dated_due:
  assumes "printable today" "printable date" "time_suffix suffix"
  shows "takeWhile (\<lambda>c. c \<noteq> CHR ''T'') (day (dated (date, suffix, v))) \<le> strftime_ymd today
           \<longleftrightarrow> date_le date today"
  using assms by (simp add: takeWhile_time_suffix strftime_le)

lemma completion_by_dates:
  assumes today: "printable today"
    and ok: "list_all (\<lambda>(date, suffix, v). printable date \<and> time_suffix suffix) entries"
  shows "check_task_completion (map dated entries) target (strftime_ymd today) =
     (let required_days = length (filter (\<lambda>(date, suffix, v). date_le date today) entries);
          completed_days =
            length (filter (\<lambda>(date, suffix, v). date_le date today
                               \<and> target \<le> (case v of None \<Rightarrow> 0 | Some n \<Rightarrow> n)) entries)
      in if required_days = 0 then NotYetDue
         else if completed_days = required_days then Complete
         else Failed completed_days required_days)"
proof -
  have parts: "printable date \<and> time_suffix suffix" if "(date, suffix, v) \<in> set entries"
    for date suffix v
    using ok that by (auto simp: list_all_iff)
  have due: "((\<lambda>e. takeWhile (\<lambda>c. c \<noteq> CHR ''T'') (day e) \<le> strftime_ymd today) \<circ> dated) x
      = (case x of (date, suffix, v) \<Rightarrow> date_le date today)" if "x \<in> set entries" for x
  proof -
    obtain date suffix v where x: "x = (date, suffix, v)" by (cases x)
    from parts that have "printable date" "time_suffix suffix" by (simp_all add: x)
    from dated_due [OF today this] show ?thesis by (simp only: x prod.case o_apply)
  qed
  have met: "((\<lambda>e. takeWhile (\<lambda>c. c \<noteq> CHR ''T'') (day e) \<le> strftime_ymd today
                    \<and> entry_steps e \<ge> target) \<circ> dated) x
      = (case x of (date, suffix, v) \<Rightarrow>
           date_le date today \<and> target \<le> (case v of None \<Rightarrow> 0 | Some n \<Rightarrow> n))"
    if "x \<in> set entries" for x
  proof -
    obtain date suffix v where x: "x = (date, suffix, v)" by (cases x)
    have "entry_steps (dated (date, suffix, v)) = (case v of None \<Rightarrow> 0 | Some n \<Rightarrow> n)"
      by (simp add: entry_steps_def)
    with due [OF that] show ?thesis by (simp only: x prod.case o_apply)
  qed
  have r: "filter ((\<lambda>e. takeWhile (\<lambda>c. c \<noteq> CHR ''T'') (day e) \<le> strftime_ymd today) \<circ> dated) entries
      = filter (\<lambda>(date, suffix, v). date_le date today) entries"
    by (rule filter_cong [OF refl]) (rule due)
  have c: "filter ((\<lambda>e. takeWhile (\<lambda>c. c \<noteq> CHR ''T'') (day e) \<le> strftime_ymd today
                       \<and> entry_steps e \<ge> target) \<circ> dated) entries
      = filter (\<lambda>(date, suffix, v). date_le date today
                  \<and> target \<le> (case v of None \<Rightarrow> 0 | Some n \<Rightarrow> n)) entries"
    by (rule filter_cong [OF refl]) (rule met)
  show ?thesis
    unfolding completion_by_counts filter_map length_map r c ..
qed


text \<open>
  Claim C5. The date of an entry is the text of its \<^verbatim>\<open>'day'\<close> before the first
  \<^verbatim>\<open>'T'\<close> (all of it when there is none), and it is compared with the evaluation date
  as a string. With \<open>required_days\<close> the number of entries whose date is at or before the
  evaluation date, and \<open>completed_days\<close> the number of those whose step count reaches the
  target: the evaluation returns \<open>NotYetDue\<close> when \<open>required_days\<close> is 0, whatever the
  series holds; otherwise \<open>Complete\<close> when the two counts are equal; otherwise
  \<open>Failed completed_days required_days\<close>. When the days are calendar dates as
  \<open>strftime_ymd\<close> prints them, alone or followed by a time that starts with \<^verbatim>\<open>'T'\<close>,
  and the evaluation date is printed the same way, \<open>required_days\<close> is the number of
  entries whose calendar date is at or before the evaluation date.
\<close>

theorem check_task_completion_cases:
  "check_task_completion steps_data target current_date =
     (let required_days =
            length (filter (\<lambda>e. takeWhile (\<lambda>c. c \<noteq> CHR ''T'') (day e) \<le> current_date) steps_data);
          completed_days =
            length (filter (\<lambda>e. takeWhile (\<lambda>c. c \<noteq> CHR ''T'') (day e) \<le> current_date
                                 \<and> entry_steps e \<ge> target) steps_data)
      in if required_days = 0 then NotYetDue
         else if completed_days = required_days then Complete
         else Failed completed_days required_days)
   \<and> (printable today
        \<and> list_all (\<lambda>(date, suffix, v). printable date \<and> time_suffix suffix) entries \<longrightarrow>
      check_task_completion (map dated entries) target (strftime_ymd today) =
        (let required_days = length (filter (\<lambda>(date, suffix, v). date_le date today) entries);
             completed_days =
               length (filter (\<lambda>(date, suffix, v). date_le date today
                                  \<and> target \<le> (case v of None \<Rightarrow> 0 | Some n \<Rightarrow> n)) entries)
         in if required_days = 0 then NotYetDue
            else if completed_days = required_days then Complete
            else Failed completed_days required_days))"
proof (rule conjI [OF completion_by_counts], rule impI)
  assume a: "printable today
    \<and> list_all (\<lambda>(date, suffix, v). printable date \<and> time_suffix suffix) entries"
  from a have today: "printable today" by (rule conjunct1)
  from a have ok: "list_all (\<lambda>(date, suffix, v). printable date \<and> time_suffix suffix) entries"
    by (rule conjunct2)
  show "check_task_completion (map dated entries) target (strftime_ymd today) =
        (let required_days = length (filter (\<lambda>(date, suffix, v). date_le date today) entries);
             completed_days =
               length (filter (\<lambda>(date, suffix, v). date_le date today
                                  \<and> target \<le> (case v of None \<Rightarrow> 0 | Some n \<Rightarrow> n)) entries)
         in if required_days = 0 then NotYetDue
            else if completed_days = required_days then Complete
            else Failed completed_days required_days)"
    by (rule completion_by_dates [OF today ok])
qed

text \<open>
  Claim C6. Whenever the evaluation returns \<open>Failed c r\<close>, the number \<open>c\<close> of completed
  days is smaller than the number \<open>r\<close> of required days.
\<close>

theorem failed_completed_less_required:
  "check_task_completion steps_data target current_date = Failed c r \<Longrightarrow> c < r"
  using filter_conj_le [of "\<lambda>e. step_date (day e) \<le> current_date" "\<lambda>e. entry_steps e \<ge> target" steps_data]
  by (auto simp: check_task_completion_def count_days_eq split: if_splits)

lemma example_series:
  "check_task_completion
     [\<lparr>day = ''2024-01-01'', steps = Some 12000\<rparr>, \<lparr>day = ''2024-01-02'', steps = Some 8000\<rparr>,
      \<lparr>day = ''2024-01-03'', steps = Some 0\<rparr>] 10000 ''2024-01-03'' = Failed 1 3"
  by (simp add: check_task_completion_def step_date_def entry_steps_def)

theorem failed_completed_less_required_witness:
  "check_task_completion
     [\<lparr>day = ''2024-01-01'', steps = Some 12000\<rparr>, \<lparr>day = ''2024-01-02'', steps = Some 8000\<rparr>,
      \<lparr>day = ''2024-01-03'', steps = Some 0\<rparr>] 10000 ''2024-01-03'' = Failed 1 3
   \<and> (1::nat) < 3"
  using failed_completed_less_required [OF example_series] example_series by simp

lemma pad_nat_2_digits: "pad_nat 2 n = [digit_char (n div 10 mod 10), digit_char (n mod 10)]"
proof -
  have "pad_nat (Suc (Suc 0)) n = [digit_char (n div 10 mod 10), digit_char (n mod 10)]"
    by simp
  then show ?thesis by (simp only: numeral_2_eq_2)
qed

lemma pad_nat_4_digits:
  "pad_nat 4 n = [digit_char (n div 1000 mod 10), digit_char (n div 100 mod 10),
                  digit_char (n div 10 mod 10), digit_char (n mod 10)]"
proof -
  have four: "(4::nat) = Suc (Suc (Suc (Suc 0)))" by simp
  have "n div 10 div 10 = n div 100" "n div 10 div 10 div 10 = n div 1000"
    by (simp_all add: div_mult2_eq [symmetric])
  then show ?thesis unfolding four by simp
qed

lemma strftime_examples:
  "strftime_ymd (2024, 2, 10) = ''2024-02-10''" "strftime_ymd (2024, 2, 11) = ''2024-02-11''"
  "strftime_ymd (2024, 2, 12) = ''2024-02-12''" "strftime_ymd (2023, 12, 31) = ''2023-12-31''"
  by (simp_all add: pad_nat_2_digits pad_nat_4_digits digit_char_def)

lemma dated_examples:
  "map dated [((2024, 2, 10), ''T00:00:00.000Z'', Some 12000),
              ((2024, 2, 11), ''T00:00:00.000Z'', Some 8000),
              ((2024, 2, 12), ''T00:00:00.000Z'', None)] =
     [\<lparr>day = ''2024-02-10T00:00:00.000Z'', steps = Some 12000\<rparr>,
      \<lparr>day = ''2024-02-11T00:00:00.000Z'', steps = Some 8000\<rparr>,
      \<lparr>day = ''2024-02-12T00:00:00.000Z'', steps = None\<rparr>]"
  by (simp add: strftime_examples del: strftime_ymd.simps)

theorem check_task_completion_cases_witness:
  "check_task_completion
     [\<lparr>day = ''2024-02-10T00:00:00.000Z'', steps = Some 12000\<rparr>,
      \<lparr>day = ''2024-02-11T00:00:00.000Z'', steps = Some 8000\<rparr>,
      \<lparr>day = ''2024-02-12T00:00:00.000Z'', steps = None\<rparr>] 10000 ''2024-02-12'' = Failed 1 3
   \<and> check_task_completion
     [\<lparr>day = ''2024-02-10T00:00:00.000Z'', steps = Some 12000\<rparr>,
      \<lparr>day = ''2024-02-11T00:00:00.000Z'', steps = Some 8000\<rparr>,
      \<lparr>day = ''2024-02-12T00:00:00.000Z'', steps = None\<rparr>] 10000 ''2024-02-10'' = Complete
   \<and> check_task_completion
     [\<lparr>day = ''2024-02-10T00:00:00.000Z'', steps = Some 12000\<rparr>,
      \<lparr>day = ''2024-02-11T00:00:00.000Z'', steps = Some 8000\<rparr>,
      \<lparr>day = ''2024-02-12T00:00:00.000Z'', steps = None\<rparr>] 10000 ''2023-12-31'' = NotYetDue"
proof -
  let ?entries = "[((2024, 2, 10), ''T00:00:00.000Z'', Some 12000),
                   ((2024, 2, 11), ''T00:00:00.000Z'', Some 8000),
                   ((2024, 2, 12), ''T00:00:00.000Z'', None)]
                  :: ((nat \<times> nat \<times> nat) \<times> string \<times> int option) list"
  have ok: "list_all (\<lambda>(date, suffix, v). printable date \<and> time_suffix suffix) ?entries"
    by simp
  have by_dates: "check_task_completion (map dated ?entries) 10000 (strftime_ymd today) =
        (let required_days = length (filter (\<lambda>(date, suffix, v). date_le date today) ?entries);
             completed_days =
               length (filter (\<lambda>(date, suffix, v). date_le date today
                                  \<and> 10000 \<le> (case v of None \<Rightarrow> 0 | Some n \<Rightarrow> n)) ?entries)
         in if required_days = 0 then NotYetDue
            else if completed_days = required_days then Complete
            else Failed completed_days required_days)" if "printable today" for today
    by (rule check_task_completion_cases
        [where today = today and entries = ?entries and target = 10000 and steps_data = "[]"
           and current_date = "[]", THEN conjunct2, THEN mp, OF conjI, OF that ok])
  have a: "check_task_completion (map dated ?entries) 10000 (strftime_ymd (2024, 2, 12)) = Failed 1 3"
    by (subst by_dates) simp_all
  have b: "check_task_completion (map dated ?entries) 10000 (strftime_ymd (2024, 2, 10)) = Complete"
    by (subst by_dates) simp_all
  have c: "check_task_completion (map dated ?entries) 10000 (strftime_ymd (2023, 12, 31)) = NotYetDue"
    by (subst by_dates) simp_all
  from a b c show ?thesis unfolding dated_examples strftime_examples by (intro conjI)
qed

section \<open>The aggregated statistics\<close>

lemma count_positive_numbers:
  "count_positive ss = Inr k \<Longrightarrow> list_all is_number (map get_steps ss)"
proof (induction ss arbitrary: k)
  case Nil
  then show ?case by simp
next
  case (Cons s ss)
  from Cons.prems have v: "is_number (get_steps s)"
    by (cases "get_steps s") (auto simp: py_gt_def is_number_def)
  from Cons.prems obtain k' where "count_positive ss = Inr k'"
    by (cases "get_steps s") (auto simp: py_gt_def split: sum.splits)
  from Cons.IH [OF this] v show ?case by simp
qed

lemma Max_insert_pick:
  "finite S \<Longrightarrow> Max (insert (if m < x then x else m) S) = Max (insert m (insert x S))"
  for m x :: int
  by (cases "S = {}") (auto simp: max_def)

lemma numbers_Cons [simp]:
  "numbers [] = []" "numbers (Num n # vs) = n # numbers vs" "numbers (NaN # vs) = numbers vs"
  by (simp_all add: numbers_def)

lemma max_loop_numbers:
  "list_all is_number vs \<Longrightarrow>
     max_loop NaN vs = Inr NaN
     \<and> max_loop (Num m) vs = Inr (Num (Max (set (m # numbers vs))))"
proof (induction vs arbitrary: m)
  case Nil
  then show ?case by simp
next
  case (Cons x xs)
  from Cons.prems have xs: "list_all is_number xs" by simp
  from Cons.prems consider n where "x = Num n" | "x = NaN"
    by (cases x) (auto simp: is_number_def)
  then show ?case
  proof cases
    case 1
    have "max_loop (Num m) (x # xs) = max_loop (Num (if m < n then n else m)) xs"
      by (simp add: 1 py_gt_def)
    also have "\<dots> = Inr (Num (Max (set ((if m < n then n else m) # numbers xs))))"
      using Cons.IH [OF xs] by blast
    also have "\<dots> = Inr (Num (Max (set (m # numbers (x # xs)))))"
      using Max_insert_pick [of "set (numbers xs)" m n] by (simp add: 1)
    finally have a: "max_loop (Num m) (x # xs) = Inr (Num (Max (set (m # numbers (x # xs)))))" .
    have "max_loop NaN (x # xs) = max_loop NaN xs" by (simp add: 1 py_gt_def)
    with Cons.IH [OF xs] a show ?thesis by simp
  next
    case 2
    have "max_loop (Num m) (x # xs) = max_loop (Num m) xs"
      and "max_loop NaN (x # xs) = max_loop NaN xs"
      by (simp_all add: 2 py_gt_def)
    with Cons.IH [OF xs, of m] show ?thesis by (simp add: 2)
  qed
qed

lemma py_max_default_numbers:
  "list_all is_number vs \<Longrightarrow> py_max_default vs (Num 0) = Inr (literal_maximum vs)"
proof (cases vs)
  case Nil
  then show ?thesis by (simp add: py_max_default_def literal_maximum_def)
next
  case (Cons x xs)
  assume "list_all is_number vs"
  with Cons have x: "is_number x" and xs: "list_all is_number xs" by simp_all
  from x consider n where "x = Num n" | "x = NaN"
    by (cases x) (auto simp: is_number_def)
  then show ?thesis
  proof cases
    case 1
    with max_loop_numbers [OF xs, of n] show ?thesis
      by (simp add: Cons py_max_default_def literal_maximum_def)
  next
    case 2
    with max_loop_numbers [OF xs, of 0] show ?thesis
      by (simp add: Cons py_max_default_def literal_maximum_def)
  qed
qed

lemma literal_maximum_nums:
  "literal_maximum (map Num vs) = Num (if vs = [] then 0 else Max (set vs))"
proof -
  have "numbers (map Num vs) = vs" by (induction vs) simp_all
  then show ?thesis by (cases vs) (simp_all add: literal_maximum_def)
qed

lemma aggregate_player_highest:
  assumes "aggregate_player p = Inr a"
  shows "list_all is_number (map get_steps (player_steps p))"
    and "highest_steps a = literal_maximum (map get_steps (player_steps p))"
proof -
  from assms obtain k where "count_positive (player_steps p) = Inr k"
    by (auto simp: aggregate_player_def split: sum.splits)
  from count_positive_numbers [OF this]
  show n: "list_all is_number (map get_steps (player_steps p))" .
  from assms show "highest_steps a = literal_maximum (map get_steps (player_steps p))"
    by (auto simp: aggregate_player_def py_max_default_numbers [OF n] split: sum.splits)
qed

lemma set_update_subset: "set (AList.update k v al) \<subseteq> insert (k, v) (set al)"
  by (induction al) auto

lemma process_loop_source:
  "(u, a) \<in> set (process_loop d ps) \<Longrightarrow>
     (u, a) \<in> set d \<or> (\<exists>p\<in>set ps. name p = Some u \<and> aggregate_player p = Inr a)"
proof (induction ps arbitrary: d)
  case Nil
  then show ?case by simp
next
  case (Cons p ps)
  show ?case
  proof (cases "name p")
    case None
    with Cons.prems have "(u, a) \<in> set (process_loop d ps)" by simp
    from Cons.IH [OF this] show ?thesis by auto
  next
    case (Some w)
    show ?thesis
    proof (cases "w = [] \<or> (\<exists>e. aggregate_player p = Inl e)")
      case True
      with Cons.prems Some have "(u, a) \<in> set (process_loop d ps)"
        by (auto split: if_splits)
      from Cons.IH [OF this] show ?thesis by auto
    next
      case False
      then obtain b where b: "aggregate_player p = Inr b" and w: "w \<noteq> []"
        by (cases "aggregate_player p") auto
      with Cons.prems Some have "(u, a) \<in> set (process_loop (AList.update w b d) ps)" by simp
      from Cons.IH [OF this] set_update_subset [of w b d] Some b show ?thesis by auto
    qed
  qed
qed


text \<open>
  Claim C3, as the code has it. Every entry of the aggregated output was built from a
  record of the batch with that username; the step values of that record are numbers or
  NaN (an absent one counts as 0), and \<open>highest_steps\<close> is what \<^verbatim>\<open>max\<close> gives on these raw
  values, with no entry left out: when all values are numbers it is their maximum, so a
  count of 30000 or more, which is shown as capped, takes part with its own magnitude; a
  NaN in first place is returned as it is, a NaN further on is passed over. It is 0 when
  the player has no step entry.
\<close>

theorem highest_steps_is_raw_maximum:
  "(u, a) \<in> set (process_player_data players) \<Longrightarrow>
     \<exists>p\<in>set players.
        name p = Some u \<and> aggregate_player p = Inr a
      \<and> list_all is_number (map get_steps (player_steps p))
      \<and> highest_steps a = literal_maximum (map get_steps (player_steps p))
      \<and> (\<forall>vs. map get_steps (player_steps p) = map Num vs \<longrightarrow>
             highest_steps a = Num (if vs = [] then 0 else Max (set vs)))"
proof -
  assume "(u, a) \<in> set (process_player_data players)"
  then have "(u, a) \<in> set (process_loop [] players)" by (simp add: process_player_data_def)
  from process_loop_source [OF this] obtain p
    where p: "p \<in> set players" "name p = Some u" "aggregate_player p = Inr a" by auto
  note h = aggregate_player_highest [OF p(3)]
  have "highest_steps a = Num (if vs = [] then 0 else Max (set vs))"
    if "map get_steps (player_steps p) = map Num vs" for vs
    using h(2) unfolding that by (simp only: literal_maximum_nums)
  with p h show ?thesis by blast
qed

lemma comma_100: "format_comma 100 = ''100''"
  by (simp add: format_comma_def str_nat.simps commas.simps digit_char_def)

lemma comma_5: "format_comma 5 = ''5''"
  by (simp add: format_comma_def str_nat.simps commas.simps digit_char_def)

lemma aggregate_example:
  "process_player_data
     [\<lparr>name = Some ''bob'', player_steps =
         [\<lparr>raw_day = Some ''2024-01-01'', raw_steps = Some (Num 100)\<rparr>,
          \<lparr>raw_day = Some ''2024-01-02'', raw_steps = Some (Num 45000)\<rparr>]\<rparr>,
      \<lparr>name = Some ''amy'', player_steps =
         [\<lparr>raw_day = Some ''2024-01-01'', raw_steps = Some NaN\<rparr>,
          \<lparr>raw_day = Some ''2024-01-02'', raw_steps = Some (Num 5)\<rparr>]\<rparr>]
   = [(''bob'', \<lparr>formatted_steps = [''100'', ''30k+''], total_completed = 2,
                 highest_steps = Num 45000\<rparr>),
      (''amy'', \<lparr>formatted_steps = [''-'', ''5''], total_completed = 1,
                 highest_steps = NaN\<rparr>)]"
  by (simp add: process_player_data_def aggregate_player_def get_steps_def format_steps_def
      comma_100 comma_5 py_gt_def py_max_default_def)

theorem highest_steps_is_raw_maximum_witness:
  "process_player_data
     [\<lparr>name = Some ''bob'', player_steps =
         [\<lparr>raw_day = Some ''2024-01-01'', raw_steps = Some (Num 100)\<rparr>,
          \<lparr>raw_day = Some ''2024-01-02'', raw_steps = Some (Num 45000)\<rparr>]\<rparr>,
      \<lparr>name = Some ''amy'', player_steps =
         [\<lparr>raw_day = Some ''2024-01-01'', raw_steps = Some NaN\<rparr>,
          \<lparr>raw_day = Some ''2024-01-02'', raw_steps = Some (Num 5)\<rparr>]\<rparr>]
   = [(''bob'', \<lparr>formatted_steps = [''100'', ''30k+''], total_completed = 2,
                 highest_steps = Num 45000\<rparr>),
      (''amy'', \<lparr>formatted_steps = [''-'', ''5''], total_completed = 1,
                 highest_steps = NaN\<rparr>)]
   \<and> literal_maximum [Num 100, Num 45000] = Num 45000
   \<and> literal_maximum [NaN, Num 5] = NaN"
proof -
  let ?bob = "\<lparr>name = Some ''bob'', player_steps =
         [\<lparr>raw_day = Some ''2024-01-01'', raw_steps = Some (Num 100)\<rparr>,
          \<lparr>raw_day = Some ''2024-01-02'', raw_steps = Some (Num 45000)\<rparr>]\<rparr>"
  let ?amy = "\<lparr>name = Some ''amy'', player_steps =
         [\<lparr>raw_day = Some ''2024-01-01'', raw_steps = Some NaN\<rparr>,
          \<lparr>raw_day = Some ''2024-01-02'', raw_steps = Some (Num 5)\<rparr>]\<rparr>"
  let ?b = "\<lparr>formatted_steps = [''100'', ''30k+''], total_completed = 2,
             highest_steps = Num 45000\<rparr>"
  let ?a = "\<lparr>formatted_steps = [''-'', ''5''], total_completed = 1, highest_steps = NaN\<rparr>"
  have "(''bob'', ?b) \<in> set (process_player_data [?bob, ?amy])"
    and "(''amy'', ?a) \<in> set (process_player_data [?bob, ?amy])"
    by (simp_all add: aggregate_example)
  from highest_steps_is_raw_maximum [OF this(1)] highest_steps_is_raw_maximum [OF this(2)]
  have "literal_maximum [Num 100, Num 45000] = Num 45000"
    and "literal_maximum [NaN, Num 5] = NaN"
    by (auto simp: get_steps_def)
  with aggregate_example show ?thesis by (intro conjI)
qed

text \<open>
  The claim C3 as stated ignores capped entries. For the days 100 and 45000 the code
  stores 45000, where the maximum over the entries that are neither missing nor capped
  is 100.
\<close>

theorem capped_entry_is_highest:
  "process_player_data
     [\<lparr>name = Some ''bob'', player_steps =
         [\<lparr>raw_day = Some ''2024-01-01'', raw_steps = Some (Num 100)\<rparr>,
          \<lparr>raw_day = Some ''2024-01-02'', raw_steps = Some (Num 45000)\<rparr>]\<rparr>]
   = [(''bob'', \<lparr>formatted_steps = [''100'', ''30k+''], total_completed = 2,
                 highest_steps = Num 45000\<rparr>)]
   \<and> spec_highest_steps
       [\<lparr>raw_day = Some ''2024-01-01'', raw_steps = Some (Num 100)\<rparr>,
        \<lparr>raw_day = Some ''2024-01-02'', raw_steps = Some (Num 45000)\<rparr>] = 100"
  by (simp add: process_player_data_def aggregate_player_def get_steps_def format_steps_def
      comma_100 py_gt_def py_max_default_def spec_highest_steps_def)

section \<open>The entries of the aggregated output\<close>

lemma process_loop_skip:
  "\<not> accepted p \<Longrightarrow> process_loop d (p # ps) = process_loop d ps"
  by (auto simp: accepted_def valid_username_def raises_def split: option.splits sum.splits)

lemma process_loop_store:
  "accepted p \<Longrightarrow> \<exists>a. process_loop d (p # ps) = process_loop (AList.update (username p) a d) ps"
  by (auto simp: accepted_def valid_username_def raises_def username_def
      split: option.splits sum.splits)

lemma process_loop_keys:
  "fst ` set (process_loop d ps) = fst ` set d \<union> username ` {p \<in> set ps. accepted p}"
proof (induction ps arbitrary: d)
  case Nil
  then show ?case by simp
next
  case (Cons p ps)
  show ?case
  proof (cases "accepted p")
    case True
    from process_loop_store [OF this] obtain a
      where "process_loop d (p # ps) = process_loop (AList.update (username p) a d) ps" ..
    then show ?thesis using True by (auto simp del: process_loop.simps simp: Cons.IH dom_update)
  next
    case False
    then have "process_loop d (p # ps) = process_loop d ps" by (rule process_loop_skip)
    then show ?thesis using False by (auto simp del: process_loop.simps simp: Cons.IH)
  qed
qed

lemma process_loop_distinct:
  "distinct (map fst d) \<Longrightarrow> distinct (map fst (process_loop d ps))"
proof (induction ps arbitrary: d)
  case Nil
  then show ?case by simp
next
  case (Cons p ps)
  show ?case
  proof (cases "accepted p")
    case True
    from process_loop_store [OF this] obtain a
      where "process_loop d (p # ps) = process_loop (AList.update (username p) a d) ps" ..
    then show ?thesis using Cons by (simp del: process_loop.simps add: distinct_update)
  next
    case False
    then have "process_loop d (p # ps) = process_loop d ps" by (rule process_loop_skip)
    then show ?thesis using Cons by (simp del: process_loop.simps)
  qed
qed

lemma format_all_numeric:
  "list_all (\<lambda>s. \<exists>n. get_steps s = Num n) ss \<Longrightarrow> \<exists>fs. format_all ss = Inr fs"
proof (induction ss)
  case Nil
  then show ?case by simp
next
  case (Cons s ss)
  then obtain fs where fs: "format_all ss = Inr fs" by auto
  from Cons.prems obtain n where "get_steps s = Num n" by auto
  then show ?case by (simp add: fs format_steps_def)
qed

lemma count_positive_numeric:
  "list_all (\<lambda>s. \<exists>n. get_steps s = Num n) ss \<Longrightarrow> \<exists>k. count_positive ss = Inr k"
proof (induction ss)
  case Nil
  then show ?case by simp
next
  case (Cons s ss)
  then obtain k where k: "count_positive ss = Inr k" by auto
  from Cons.prems obtain n where "get_steps s = Num n" by auto
  then show ?case by (simp add: k py_gt_def)
qed

lemma numeric_steps_values:
  "numeric_steps p \<Longrightarrow> list_all (\<lambda>s. \<exists>n. get_steps s = Num n) (player_steps p)"
  unfolding numeric_steps_def list_all_iff
proof
  fix s
  assume a: "\<forall>s\<in>set (player_steps p).
      case get_steps s of Num n \<Rightarrow> True | Str t \<Rightarrow> False | Null \<Rightarrow> False | NaN \<Rightarrow> False"
    and s: "s \<in> set (player_steps p)"
  from a s show "\<exists>n. get_steps s = Num n"
    by (cases "get_steps s") auto
qed

lemma numeric_not_raises: "numeric_steps p \<Longrightarrow> \<not> raises p"
proof -
  assume "numeric_steps p"
  then have n: "list_all (\<lambda>s. \<exists>n. get_steps s = Num n) (player_steps p)"
    by (rule numeric_steps_values)
  from format_all_numeric [OF n] obtain fs where "format_all (player_steps p) = Inr fs" ..
  moreover from count_positive_numeric [OF n] obtain k
    where k: "count_positive (player_steps p) = Inr k" ..
  moreover note py_max_default_numbers [OF count_positive_numbers [OF k]]
  ultimately show ?thesis
    by (simp add: raises_def aggregate_player_def)
qed

lemma all_but_one:
  assumes "k < length ps" "\<not> accepted (ps ! k)"
    and "\<forall>i<length ps. i \<noteq> k \<longrightarrow> accepted (ps ! i)"
  shows "{p \<in> set ps. accepted p} = (\<lambda>i. ps ! i) ` ({..<length ps} - {k})"
proof
  show "{p \<in> set ps. accepted p} \<subseteq> (\<lambda>i. ps ! i) ` ({..<length ps} - {k})"
  proof
    fix p assume "p \<in> {p \<in> set ps. accepted p}"
    then obtain i where i: "i < length ps" "ps ! i = p" and acc: "accepted p"
      by (auto simp: in_set_conv_nth)
    with assms(2) have "i \<noteq> k" by auto
    with i show "p \<in> (\<lambda>i. ps ! i) ` ({..<length ps} - {k})" by auto
  qed
  show "(\<lambda>i. ps ! i) ` ({..<length ps} - {k}) \<subseteq> {p \<in> set ps. accepted p}"
    using assms(3) by auto
qed

lemma one_skipped_length:
  assumes k: "k < length ps" and bad: "\<not> accepted (ps ! k)"
    and good: "\<forall>i<length ps. i \<noteq> k \<longrightarrow> accepted (ps ! i)"
    and dist: "\<forall>i<length ps. \<forall>j<length ps. i \<noteq> k \<and> j \<noteq> k \<and> i \<noteq> j
                 \<longrightarrow> username (ps ! i) \<noteq> username (ps ! j)"
  shows "length (process_loop [] ps) = length ps - 1"
proof -
  have "distinct (map fst (process_loop [] ps))"
    by (rule process_loop_distinct) simp
  from distinct_card [OF this]
  have "length (process_loop [] ps) = card (fst ` set (process_loop [] ps))"
    by simp
  also have "\<dots> = card ((\<lambda>i. username (ps ! i)) ` ({..<length ps} - {k}))"
    by (simp add: process_loop_keys all_but_one [OF k bad good] image_image)
  also have "\<dots> = card ({..<length ps} - {k})"
  proof (rule card_image)
    show "inj_on (\<lambda>i. username (ps ! i)) ({..<length ps} - {k})"
      using dist by (auto simp: inj_on_def)
  qed
  also have "\<dots> = length ps - 1" using k by simp
  finally show ?thesis .
qed


text \<open>
  Claim C8, as the code has it. A record without a username is skipped and the loop goes
  on with the rest of the batch; so is a record whose processing raises. The usernames
  of the output are exactly those of the records that have a username and do not raise,
  each once; a record with a username whose step values are all numbers or absent does
  not raise. In particular, when exactly one record of a batch has no username and the
  others are accepted under distinct usernames, the output has one entry fewer than the
  batch has records, and the records after the skipped one are in it: 99 entries for a
  batch of 100 in which record 57 has no username.
\<close>

theorem process_player_data_entries:
  "fst ` set (process_player_data players) = username ` {p \<in> set players. accepted p}
   \<and> distinct (map fst (process_player_data players))
   \<and> (\<not> valid_username p \<longrightarrow> process_loop d (p # ps) = process_loop d ps)
   \<and> (valid_username p \<and> numeric_steps p \<longrightarrow> accepted p)
   \<and> (k < length players \<and> \<not> valid_username (players ! k)
        \<and> (\<forall>i<length players. i \<noteq> k \<longrightarrow> accepted (players ! i))
        \<and> (\<forall>i<length players. \<forall>j<length players. i \<noteq> k \<and> j \<noteq> k \<and> i \<noteq> j
               \<longrightarrow> username (players ! i) \<noteq> username (players ! j))
      \<longrightarrow> length (process_player_data players) = length players - 1
          \<and> (\<forall>i<length players. i \<noteq> k \<longrightarrow>
                 username (players ! i) \<in> fst ` set (process_player_data players)))"
proof -
  have keys: "fst ` set (process_player_data players) = username ` {p \<in> set players. accepted p}"
    by (simp add: process_player_data_def process_loop_keys)
  have dist: "distinct (map fst (process_player_data players))"
    unfolding process_player_data_def by (rule process_loop_distinct) simp
  have skip: "\<not> valid_username p \<longrightarrow> process_loop d (p # ps) = process_loop d ps"
    using process_loop_skip [of p d ps] by (simp add: accepted_def)
  have num: "valid_username p \<and> numeric_steps p \<longrightarrow> accepted p"
    by (simp add: accepted_def numeric_not_raises)
  have hundred: "length (process_player_data players) = length players - 1
          \<and> (\<forall>i<length players. i \<noteq> k \<longrightarrow>
                 username (players ! i) \<in> fst ` set (process_player_data players))"
    if k: "k < length players" and bad: "\<not> valid_username (players ! k)"
      and good: "\<forall>i<length players. i \<noteq> k \<longrightarrow> accepted (players ! i)"
      and names: "\<forall>i<length players. \<forall>j<length players. i \<noteq> k \<and> j \<noteq> k \<and> i \<noteq> j
               \<longrightarrow> username (players ! i) \<noteq> username (players ! j)"
  proof -
    from bad have nacc: "\<not> accepted (players ! k)" by (simp add: accepted_def)
    have len: "length (process_player_data players) = length players - 1"
      unfolding process_player_data_def by (rule one_skipped_length [OF k nacc good names])
    have "username (players ! i) \<in> fst ` set (process_player_data players)"
      if "i < length players" "i \<noteq> k" for i
    proof -
      from that good have "accepted (players ! i)" by simp
      moreover from that have "players ! i \<in> set players" by simp
      ultimately show ?thesis unfolding keys by blast
    qed
    with len show ?thesis by simp
  qed
  from keys dist skip num hundred show ?thesis by blast
qed

lemma batch100_length: "length batch100 = 100"
  by (simp add: batch100_def)

lemma batch100_nth:
  "i < 100 \<Longrightarrow> batch100 ! i =
     \<lparr>name = (if i = 56 then None else Some (str_nat i)),
      player_steps = [\<lparr>raw_day = Some ''2024-01-01'', raw_steps = Some (Num (int i))\<rparr>]\<rparr>"
  by (simp add: batch100_def)

lemma str_nat_inj: "str_nat i = str_nat j \<Longrightarrow> i = j"
proof -
  assume "str_nat i = str_nat j"
  then have "digits_val (str_nat i) = digits_val (str_nat j)" by (rule arg_cong)
  then show "i = j" by (simp only: digits_val_str_nat)
qed

lemma batch100_accepted: "i < 100 \<Longrightarrow> i \<noteq> 56 \<Longrightarrow> accepted (batch100 ! i)"
  by (simp add: accepted_def batch100_nth valid_username_def str_nat_nonempty
      numeric_not_raises numeric_steps_def get_steps_def)

lemma batch100_username: "i < 100 \<Longrightarrow> i \<noteq> 56 \<Longrightarrow> username (batch100 ! i) = str_nat i"
  by (simp add: batch100_nth username_def)

theorem process_player_data_entries_witness:
  "length batch100 = 100 \<and> \<not> valid_username (batch100 ! 56)
   \<and> length (process_player_data batch100) = 99
   \<and> str_nat 99 \<in> fst ` set (process_player_data batch100)"
proof -
  have bad: "\<not> valid_username (batch100 ! 56)"
    by (simp add: batch100_nth valid_username_def)
  have good: "\<forall>i<length batch100. i \<noteq> 56 \<longrightarrow> accepted (batch100 ! i)"
    by (simp add: batch100_length batch100_accepted)
  have names: "\<forall>i<length batch100. \<forall>j<length batch100. i \<noteq> 56 \<and> j \<noteq> 56 \<and> i \<noteq> j
               \<longrightarrow> username (batch100 ! i) \<noteq> username (batch100 ! j)"
    by (auto simp: batch100_length batch100_username dest: str_nat_inj)
  have k: "56 < length batch100" by (simp add: batch100_length)
  from process_player_data_entries [of batch100 undefined undefined undefined 56] k bad good names
  have "length (process_player_data batch100) = length batch100 - 1
          \<and> (\<forall>i<length batch100. i \<noteq> 56 \<longrightarrow>
                 username (batch100 ! i) \<in> fst ` set (process_player_data batch100))"
    by blast
  then have "length (process_player_data batch100) = 99"
    and "username (batch100 ! 99) \<in> fst ` set (process_player_data batch100)"
    by (simp_all add: batch100_length)
  with bad show ?thesis by (simp add: batch100_length batch100_username)
qed

text \<open>
  The claim C8 as stated promises an entry for every valid username; a record with the
  username \<^verbatim>\<open>'bob'\<close> and the step value \<^verbatim>\<open>'N/A'\<close> raises TypeError in
  \<^verbatim>\<open>format_steps\<close> and leaves no entry.
\<close>

theorem valid_username_without_entry:
  "valid_username \<lparr>name = Some ''bob'', player_steps =
       [\<lparr>raw_day = Some ''2024-01-01'', raw_steps = Some (Str ''N/A'')\<rparr>]\<rparr>
   \<and> process_player_data [\<lparr>name = Some ''bob'', player_steps =
       [\<lparr>raw_day = Some ''2024-01-01'', raw_steps = Some (Str ''N/A'')\<rparr>]\<rparr>] = []"
  by (simp add: valid_username_def process_player_data_def aggregate_player_def get_steps_def
      format_steps_def)

section \<open>The strings that are converted back to numbers\<close>

lemma ascii_iff: "ascii s \<longleftrightarrow> (\<forall>c\<in>set s. (of_char c :: nat) < 128)"
  by (simp add: ascii_def list_all_iff)

lemma is_digit_ascii: "is_digit c \<Longrightarrow> (of_char c :: nat) < 128"
  by (auto simp: is_digit_def)

lemma set_commas: "set (commas ds) \<subseteq> insert (CHR '','') (set ds)"
proof (induction ds rule: commas.induct)
  case (1 ds)
  show ?case
  proof (cases "length ds \<le> 3")
    case True
    then show ?thesis by (auto simp: commas.simps [of ds])
  next
    case False
    have "set (take (length ds - 3) ds) \<subseteq> set ds" "set (drop (length ds - 3) ds) \<subseteq> set ds"
      by (rule set_take_subset, rule set_drop_subset)
    with 1 [OF False] False show ?thesis
      by (subst commas.simps) auto
  qed
qed

lemma ascii_commas_str_nat: "ascii (commas (str_nat n))"
proof -
  have "(of_char c :: nat) < 128" if "c \<in> set (commas (str_nat n))" for c
  proof -
    from that set_commas have "c = CHR '','' \<or> c \<in> set (str_nat n)" by auto
    then show ?thesis
    proof
      assume "c = CHR '',''"
      then show ?thesis by simp
    next
      assume "c \<in> set (str_nat n)"
      with str_nat_digits [of n] have "is_digit c" by (simp add: list_all_iff)
      then show ?thesis by (rule is_digit_ascii)
    qed
  qed
  then show ?thesis by (simp add: ascii_iff)
qed

lemma ascii_format_comma: "ascii (format_comma n)"
  using ascii_commas_str_nat by (simp add: format_comma_def ascii_def)

lemma format_steps_ascii: "is_number v \<Longrightarrow> format_steps v = Inr f \<Longrightarrow> ascii f"
  using ascii_format_comma
  by (cases v) (auto simp: format_steps_def is_number_def ascii_def split: if_splits)

lemma format_all_ascii:
  "format_all ss = Inr fs \<Longrightarrow> list_all is_number (map get_steps ss) \<Longrightarrow> list_all ascii fs"
proof (induction ss arbitrary: fs)
  case Nil
  then show ?case by simp
next
  case (Cons s ss)
  from Cons.prems(1) obtain f fs' where f: "format_steps (get_steps s) = Inr f"
    and fs': "format_all ss = Inr fs'" and fs: "fs = f # fs'"
    by (auto split: sum.splits)
  from Cons.prems(2) have "is_number (get_steps s)" "list_all is_number (map get_steps ss)"
    by simp_all
  with f fs' Cons.IH show ?case by (simp add: fs format_steps_ascii)
qed

text \<open>
  The display strings that reach the conversion to a number in \<^verbatim>\<open>display_results\<close>
  are ASCII: they are the formatted series of an entry of the aggregated output, padded
  with \<^verbatim>\<open>'-'\<close>.
\<close>

lemma shown_ascii:
  assumes "(u, a) \<in> set (process_player_data players)"
  shows "list_all ascii (pad_steps (formatted_steps a) game_dates)"
proof -
  from assms have "(u, a) \<in> set (process_loop [] players)" by (simp add: process_player_data_def)
  from process_loop_source [OF this] obtain p where p: "aggregate_player p = Inr a" by auto
  then have "format_all (player_steps p) = Inr (formatted_steps a)"
    by (auto simp: aggregate_player_def split: sum.splits)
  from format_all_ascii [OF this aggregate_player_highest(1) [OF p]]
  have "list_all ascii (formatted_steps a)" .
  moreover have "ascii ''-''" by (simp add: ascii_def)
  ultimately show ?thesis by (auto simp: pad_steps_def list_all_iff)
qed

section \<open>The fetch loop\<close>

lemma fetch_loop_unfold:
  "0 < fuel \<Longrightarrow> fetch_loop api fuel st =
     (let data = api (length (calls st)) (skip st);
          st1 = st\<lparr>calls := calls st @ [(skip st, retry_count st, data)]\<rparr>
      in case data of
           NoData \<Rightarrow>
             if retry_count st1 < max_retries
             then fetch_loop api (fuel - 1) (st1\<lparr>retry_count := retry_count st1 + 1\<rparr>)
             else Some st1
         | Data players \<Rightarrow>
             (let st2 = st1\<lparr>retry_count := 0\<rparr> in
              if length players = 0 then Some st2
              else (let st3 = st2\<lparr>all_players := all_players st2 @ players\<rparr> in
                    if length players < take_sz then Some st3
                    else fetch_loop api (fuel - 1) (st3\<lparr>skip := skip st3 + take_sz\<rparr>))))"
proof -
  assume "0 < fuel"
  then obtain n where n: "fuel = Suc n" by (cases fuel) auto
  show ?thesis unfolding n by (simp cong: if_cong reply.case_cong)
qed

lemma fetch_retry:
  "api (length (calls st)) (skip st) = NoData \<Longrightarrow> retry_count st < max_retries \<Longrightarrow>
     fetch_loop api (Suc fuel) st =
       fetch_loop api fuel
         (st\<lparr>calls := calls st @ [(skip st, retry_count st, NoData)],
             retry_count := retry_count st + 1\<rparr>)"
  by simp

lemma fetch_exhausted:
  "api (length (calls st)) (skip st) = NoData \<Longrightarrow> \<not> retry_count st < max_retries \<Longrightarrow>
     fetch_loop api (Suc fuel) st =
       Some (st\<lparr>calls := calls st @ [(skip st, retry_count st, NoData)]\<rparr>)"
  by simp

lemma fetch_empty:
  "api (length (calls st)) (skip st) = Data [] \<Longrightarrow>
     fetch_loop api (Suc fuel) st =
       Some (st\<lparr>calls := calls st @ [(skip st, retry_count st, Data [])], retry_count := 0\<rparr>)"
  by simp

lemma fetch_short:
  "api (length (calls st)) (skip st) = Data players \<Longrightarrow> players \<noteq> [] \<Longrightarrow>
   length players < take_sz \<Longrightarrow>
     fetch_loop api (Suc fuel) st =
       Some (st\<lparr>calls := calls st @ [(skip st, retry_count st, Data players)], retry_count := 0,
               all_players := all_players st @ players\<rparr>)"
  by simp

lemma fetch_full:
  "api (length (calls st)) (skip st) = Data players \<Longrightarrow> \<not> length players < take_sz \<Longrightarrow>
     fetch_loop api (Suc fuel) st =
       fetch_loop api fuel
         (st\<lparr>calls := calls st @ [(skip st, retry_count st, Data players)], retry_count := 0,
             all_players := all_players st @ players, skip := skip st + take_sz\<rparr>)"
  by (auto simp: Let_def take_sz_def)

lemma chained_snoc:
  "chained cur (cs @ [c]) \<longleftrightarrow>
     chained cur cs \<and> (fst c, fst (snd c)) = after_calls cur cs \<and> fst (snd c) \<le> max_retries"
  by (induction cs arbitrary: cur) auto

lemma after_calls_snoc: "after_calls cur (cs @ [c]) = next_call c"
  by (induction cs arbitrary: cur) auto


declare fetch_loop.simps(2) [simp del]

lemma fetch_loop_trace:
  assumes "chained c0 (calls st)"
    and "after_calls c0 (calls st) = (skip st, retry_count st)"
    and "retry_count st \<le> max_retries"
    and "all_players st = concat (map page_of (calls st))"
    and "fetch_loop api fuel st = Some st'"
  shows "chained c0 (calls st') \<and> all_players st' = concat (map page_of (calls st'))"
  using assms
proof (induction fuel arbitrary: st)
  case 0
  then show ?case by simp
next
  case (Suc fuel)
  let ?d = "api (length (calls st)) (skip st)"
  let ?c = "(skip st, retry_count st, ?d)"
  have ch: "chained c0 (calls st @ [?c])"
    using Suc.prems(1-3) by (simp add: chained_snoc)
  show ?case
  proof (cases ?d)
    case NoData
    show ?thesis
    proof (cases "retry_count st < max_retries")
      case True
      let ?st1 = "st\<lparr>calls := calls st @ [(skip st, retry_count st, NoData)],
                     retry_count := retry_count st + 1\<rparr>"
      from Suc.prems(5) have run: "fetch_loop api fuel ?st1 = Some st'"
        by (simp add: fetch_retry [where api = api and st = st, OF NoData True])
      show ?thesis
      proof (rule Suc.IH [OF _ _ _ _ run])
        show "chained c0 (calls ?st1)" using ch NoData by simp
        show "after_calls c0 (calls ?st1) = (skip ?st1, retry_count ?st1)"
          by (simp add: after_calls_snoc)
        show "retry_count ?st1 \<le> max_retries" using True by simp
        show "all_players ?st1 = concat (map page_of (calls ?st1))"
          using Suc.prems(4) by simp
      qed
    next
      case False
      from Suc.prems(5) have "st' = st\<lparr>calls := calls st @ [(skip st, retry_count st, NoData)]\<rparr>"
        by (simp add: fetch_exhausted [where api = api and st = st, OF NoData False])
      then show ?thesis using ch NoData Suc.prems(4) by simp
    qed
  next
    case (Data players)
    show ?thesis
    proof (cases "length players < take_sz")
      case True
      show ?thesis
      proof (cases "players = []")
        case True
        with Data have "?d = Data []" by simp
        from Suc.prems(5) fetch_empty [where api = api and st = st, OF this]
        have "st' = st\<lparr>calls := calls st @ [(skip st, retry_count st, Data [])], retry_count := 0\<rparr>"
          by simp
        then show ?thesis using ch Data True Suc.prems(4) by simp
      next
        case False
        from Suc.prems(5) fetch_short [where api = api and st = st, OF Data False True]
        have "st' = st\<lparr>calls := calls st @ [(skip st, retry_count st, Data players)],
                       retry_count := 0, all_players := all_players st @ players\<rparr>"
          by simp
        then show ?thesis using ch Data Suc.prems(4) by simp
      qed
    next
      case False
      let ?st1 = "st\<lparr>calls := calls st @ [(skip st, retry_count st, Data players)],
                     retry_count := 0, all_players := all_players st @ players,
                     skip := skip st + take_sz\<rparr>"
      from Suc.prems(5) have run: "fetch_loop api fuel ?st1 = Some st'"
        by (simp add: fetch_full [where api = api and st = st, OF Data False])
      show ?thesis
      proof (rule Suc.IH [OF _ _ _ _ run])
        show "chained c0 (calls ?st1)" using ch Data by simp
        show "after_calls c0 (calls ?st1) = (skip ?st1, retry_count ?st1)"
          by (simp add: after_calls_snoc)
        show "retry_count ?st1 \<le> max_retries" by simp
        show "all_players ?st1 = concat (map page_of (calls ?st1))"
          using Suc.prems(4) by simp
      qed
    qed
  qed
qed

lemma chained_offset_bound:
  "chained (s0, r0) cs \<Longrightarrow>
     length (filter (\<lambda>c. fst c = s) cs)
       \<le> (if s = s0 then Suc max_retries - r0 else if s0 < s then Suc max_retries else 0)"
proof (induction cs arbitrary: s0 r0)
  case Nil
  then show ?case by simp
next
  case (Cons c cs)
  obtain s1 r1 d where c: "c = (s1, r1, d)" by (cases c)
  from Cons.prems have eq: "s1 = s0" "r1 = r0" and r: "r0 \<le> max_retries"
    and rest: "chained (next_call c) cs"
    by (auto simp: c)
  show ?case
  proof (cases d)
    case NoData
    with rest have "chained (s0, r0 + 1) cs" by (simp add: c eq)
    from Cons.IH [OF this] show ?thesis using r by (auto simp: c eq split: if_splits)
  next
    case (Data players)
    with rest have "chained (s0 + take_sz, 0) cs" by (simp add: c eq)
    from Cons.IH [OF this] show ?thesis using r
      by (auto simp: c eq take_sz_def split: if_splits)
  qed
qed

lemma fetch_exhaust_four:
  assumes "retry_count st = 0"
    and "api (length (calls st)) (skip st) = NoData"
    and "api (Suc (length (calls st))) (skip st) = NoData"
    and "api (Suc (Suc (length (calls st)))) (skip st) = NoData"
    and "api (Suc (Suc (Suc (length (calls st))))) (skip st) = NoData"
  shows "fetch_loop api (Suc (Suc (Suc (Suc fuel)))) st =
     Some (st\<lparr>calls := calls st @ [(skip st, 0, NoData), (skip st, 1, NoData),
                                     (skip st, 2, NoData), (skip st, 3, NoData)],
             retry_count := 3\<rparr>)"
  using assms
  by (simp add: fetch_loop.simps(2) max_retries_def Let_def numeral_2_eq_2 numeral_3_eq_3)


lemma fetch_loop_mono:
  "fetch_loop api fuel st = Some st' \<Longrightarrow> fetch_loop api (fuel + n) st = Some st'"
proof (induction fuel arbitrary: st)
  case 0
  then show ?case by simp
next
  case (Suc fuel)
  then show ?case
    by (auto simp: fetch_loop.simps(2) Let_def split: reply.splits if_splits)
qed

text \<open>
  Claim C7, as the code has it. For every API and every run of the loop that ends: the
  log of calls is chained from offset 0 with retry counter 0, so a failed call is
  followed by a call at the same offset with the counter one higher, never above
  \<open>max_retries = 3\<close>, and a successful call is followed by a call at the next offset with
  the counter back at zero; no offset is asked for more than \<open>1 + max_retries\<close> times;
  and the players returned are the pages of the successful calls, in order. When four
  calls in a row fail at an offset that starts with the counter at zero, the loop ends
  after the fourth and returns the state with the players accumulated so far unchanged.
  The value returned is the list of players alone.
\<close>

theorem retry_policy:
  "(fetch_loop api fuel fetch_init = Some st \<longrightarrow>
       chained (0, 0) (calls st)
     \<and> length (filter (\<lambda>c. fst c = s) (calls st)) \<le> 1 + max_retries
     \<and> all_players st = concat (map page_of (calls st)))
   \<and> (retry_count st0 = 0 \<and> (\<forall>j<4. api (length (calls st0) + j) (skip st0) = NoData) \<longrightarrow>
        fetch_loop api (4 + n) st0 =
          Some (st0\<lparr>calls := calls st0 @ [(skip st0, 0, NoData), (skip st0, 1, NoData),
                                          (skip st0, 2, NoData), (skip st0, 3, NoData)],
                   retry_count := 3\<rparr>))"
proof (intro conjI impI)
  assume run: "fetch_loop api fuel fetch_init = Some st"
  have tr: "chained (0, 0) (calls st) \<and> all_players st = concat (map page_of (calls st))"
    by (rule fetch_loop_trace [OF _ _ _ _ run]) (simp_all add: fetch_init_def)
  then show "chained (0, 0) (calls st)" and "all_players st = concat (map page_of (calls st))"
    by simp_all
  from tr chained_offset_bound [of 0 0 "calls st" s]
  show "length (filter (\<lambda>c. fst c = s) (calls st)) \<le> 1 + max_retries"
    by (auto split: if_splits)
next
  assume a: "retry_count st0 = 0 \<and> (\<forall>j<4. api (length (calls st0) + j) (skip st0) = NoData)"
  then have all: "api (length (calls st0) + j) (skip st0) = NoData" if "j < 4" for j
    using that by simp
  have three: "length (calls st0) + 3 = Suc (Suc (Suc (length (calls st0))))" by simp
  have f: "api (length (calls st0)) (skip st0) = NoData"
    "api (Suc (length (calls st0))) (skip st0) = NoData"
    "api (Suc (Suc (length (calls st0)))) (skip st0) = NoData"
    "api (Suc (Suc (Suc (length (calls st0))))) (skip st0) = NoData"
    using all [of 0] all [of 1] all [of 2] all [of 3] unfolding three by simp_all
  have four: "4 + n = Suc (Suc (Suc (Suc n)))" by simp
  show "fetch_loop api (4 + n) st0 =
          Some (st0\<lparr>calls := calls st0 @ [(skip st0, 0, NoData), (skip st0, 1, NoData),
                                          (skip st0, 2, NoData), (skip st0, 3, NoData)],
                   retry_count := 3\<rparr>)"
    unfolding four using a f by (intro fetch_exhaust_four) simp_all
qed

lemma retry_script_run:
  "fetch_loop (scripted retry_script) 20 fetch_init =
     Some \<lparr>all_players = [0..<20] @ [20..<40] @ [40..<60], skip = 60, retry_count = 3,
           calls = [(0, 0, Data [0..<20]), (20, 0, Data [20..<40]), (40, 0, NoData),
                    (40, 1, NoData), (40, 2, Data [40..<60]), (60, 0, NoData),
                    (60, 1, NoData), (60, 2, NoData), (60, 3, NoData)]\<rparr>"
  by (simp add: fetch_loop_unfold fetch_init_def scripted_def retry_script_def take_sz_def
      max_retries_def)


lemma retry_script_tail: "5 \<le> k \<Longrightarrow> scripted retry_script k s = NoData"
  by (simp add: scripted_def retry_script_def nth_Cons')

theorem retry_policy_witness:
  "fetch_loop (scripted retry_script) 20 fetch_init =
     Some \<lparr>all_players = [0..<20] @ [20..<40] @ [40..<60], skip = 60, retry_count = 3,
           calls = [(0, 0, Data [0..<20]), (20, 0, Data [20..<40]), (40, 0, NoData),
                    (40, 1, NoData), (40, 2, Data [40..<60]), (60, 0, NoData),
                    (60, 1, NoData), (60, 2, NoData), (60, 3, NoData)]\<rparr>
   \<and> chained (0, 0)
         [(0, 0, Data [0..<20]), (20, 0, Data [20..<40]), (40, 0, NoData),
          (40, 1, NoData), (40, 2, Data [40..<60]), (60, 0, NoData),
          (60, 1, NoData), (60, 2, NoData), (60, 3, NoData :: nat reply)]
   \<and> scripted retry_script 5 60 = NoData \<and> scripted retry_script 6 60 = NoData
   \<and> scripted retry_script 7 60 = NoData \<and> scripted retry_script 8 60 = NoData
   \<and> fetch_loop (scripted retry_script) 4
         \<lparr>all_players = [0..<20] @ [20..<40] @ [40..<60], skip = 60, retry_count = 0,
          calls = [(0, 0, Data [0..<20]), (20, 0, Data [20..<40]), (40, 0, NoData),
                   (40, 1, NoData), (40, 2, Data [40..<60])]\<rparr> =
     Some \<lparr>all_players = [0..<20] @ [20..<40] @ [40..<60], skip = 60, retry_count = 3,
           calls = [(0, 0, Data [0..<20]), (20, 0, Data [20..<40]), (40, 0, NoData),
                    (40, 1, NoData), (40, 2, Data [40..<60]), (60, 0, NoData),
                    (60, 1, NoData), (60, 2, NoData), (60, 3, NoData)]\<rparr>"
proof -
  let ?log = "[(0, 0, Data [0..<20]), (20, 0, Data [20..<40]), (40, 0, NoData),
               (40, 1, NoData), (40, 2, Data [40..<60])] :: (nat \<times> nat \<times> nat reply) list"
  let ?before = "\<lparr>all_players = [0..<20] @ [20..<40] @ [40..<60], skip = 60, retry_count = 0,
                calls = ?log\<rparr>"
  let ?final = "\<lparr>all_players = [0..<20] @ [20..<40] @ [40..<60], skip = 60, retry_count = 3,
               calls = ?log @ [(60, 0, NoData), (60, 1, NoData), (60, 2, NoData),
                               (60, 3, NoData)]\<rparr>"
  have fails: "scripted retry_script 5 60 = NoData" "scripted retry_script 6 60 = NoData"
    "scripted retry_script 7 60 = NoData" "scripted retry_script 8 60 = (NoData :: nat reply)"
    by (simp_all add: scripted_def retry_script_def)
  have hyp: "\<forall>j<4. scripted retry_script (length (calls ?before) + j) (skip ?before) = NoData"
    by (simp add: retry_script_tail)
  have run: "fetch_loop (scripted retry_script) 20 fetch_init = Some ?final"
    using retry_script_run by simp
  from retry_policy [of "scripted retry_script" 20 ?final 60 ?before 0] run hyp
  have "chained (0, 0) (calls ?final)"
    and "fetch_loop (scripted retry_script) (4 + 0) ?before = Some ?final"
    by (simp_all add: take_sz_def max_retries_def)
  with run fails show ?thesis by (simp add: take_sz_def max_retries_def)
qed

text \<open>
  The claim C7 as stated has the result flagged as possibly partial. A run that gives up
  at offset 20 after one page and a run against an endpoint that holds exactly that page
  return the same value.
\<close>

theorem partial_result_not_flagged:
  "get_all_game_data (scripted [Data [0..<20], NoData, NoData, NoData, NoData]) 10
     = Some [0..<20]
   \<and> get_all_game_data (serve [0..<20]) 10 = Some [0..<20]"
  by (simp add: get_all_game_data_def fetch_loop_unfold fetch_init_def scripted_def serve_def
      take_sz_def max_retries_def)

section \<open>Pagination\<close>

lemma page_at_full: "i < length ps div 20 \<Longrightarrow> length (page_at ps i) = 20"
  by (simp add: page_at_def take_sz_def)

lemma page_at_last: "length (page_at ps (length ps div 20)) < 20"
  by (simp add: page_at_def take_sz_def)

lemma take_page_at: "take (20 * i) ps @ page_at ps i = take (20 * Suc i) ps"
  by (simp add: page_at_def take_sz_def take_add [symmetric] add.commute)

lemma take_last_page: "take (20 * (length ps div 20)) ps @ page_at ps (length ps div 20) = ps"
proof -
  have "length ps \<le> 20 * Suc (length ps div 20)" by arith
  then show ?thesis by (simp only: take_page_at take_all)
qed

lemma flaky_reply:
  "flaky fails ps k (20 * i) = (if fails k then NoData else Data (page_at ps i))"
  by (simp add: flaky_def page_at_def take_sz_def)

lemma flaky_run:
  assumes H: "\<And>k. \<not> (fails k \<and> fails (k + 1) \<and> fails (k + 2) \<and> fails (k + 3))"
  shows "skip st = 20 * i \<Longrightarrow> i \<le> length ps div 20 \<Longrightarrow> all_players st = take (20 * i) ps \<Longrightarrow>
    retry_count st \<le> 3 \<Longrightarrow> retry_count st \<le> length (calls st) \<Longrightarrow>
    (\<forall>j<retry_count st. fails (length (calls st) - Suc j)) \<Longrightarrow>
    length (filter succeeded (calls st)) = i \<Longrightarrow>
    4 * (length ps div 20 + 1 - i) \<le> fuel + retry_count st \<Longrightarrow>
    \<exists>st'. fetch_loop (flaky fails ps) fuel st = Some st' \<and> ended_on_short_page ps st'"
proof (induction fuel arbitrary: st i)
  case 0
  then show ?case by simp
next
  case (Suc fuel)
  let ?k = "length (calls st)"
  let ?r = "retry_count st"
  let ?api = "flaky fails ps"
  have reply: "?api ?k (skip st) = (if fails ?k then NoData else Data (page_at ps i))"
    by (simp only: Suc.prems(1) flaky_reply)
  show ?case
  proof (cases "fails ?k")
    case True
    have r: "?r < 3"
    proof (rule ccontr)
      assume "\<not> ?r < 3"
      with Suc.prems(4) have r3: "?r = 3" by simp
      with Suc.prems(5) have k3: "3 \<le> ?k" by simp
      from Suc.prems(6) r3 have before: "fails (?k - Suc j)" if "j < 3" for j
        using that by simp
      from k3 obtain m where m: "?k = 3 + m" using le_Suc_ex by blast
      have "fails (m + 2)" using before [of 0] by (simp add: m)
      moreover have "fails (m + 1)" using before [of 1] by (simp add: m)
      moreover have "fails m" using before [of 2] by (simp add: m)
      moreover have "fails (m + 3)" using True by (simp add: m add.commute)
      ultimately show False using H [of m] by blast
    qed
    let ?st1 = "st\<lparr>calls := calls st @ [(skip st, ?r, NoData)], retry_count := ?r + 1\<rparr>"
    have step: "fetch_loop ?api (Suc fuel) st = fetch_loop ?api fuel ?st1"
      by (rule fetch_retry [where api = ?api and st = st])
        (simp_all add: reply True r max_retries_def)
    have "\<exists>st'. fetch_loop ?api fuel ?st1 = Some st' \<and> ended_on_short_page ps st'"
    proof (rule Suc.IH [of ?st1 i])
      show "skip ?st1 = 20 * i" using Suc.prems(1) by simp
      show "i \<le> length ps div 20" by (rule Suc.prems(2))
      show "all_players ?st1 = take (20 * i) ps" using Suc.prems(3) by simp
      show "retry_count ?st1 \<le> 3" using r by simp
      show "retry_count ?st1 \<le> length (calls ?st1)" using Suc.prems(5) by simp
      show "\<forall>j<retry_count ?st1. fails (length (calls ?st1) - Suc j)"
      proof (intro allI impI)
        fix j assume j: "j < retry_count ?st1"
        show "fails (length (calls ?st1) - Suc j)"
        proof (cases j)
          case 0
          then show ?thesis using True by simp
        next
          case (Suc j')
          with j have "j' < ?r" by simp
          with Suc.prems(6) have "fails (?k - Suc j')" by simp
          then show ?thesis using Suc by simp
        qed
      qed
      show "length (filter succeeded (calls ?st1)) = i" using Suc.prems(7) by simp
      show "4 * (length ps div 20 + 1 - i) \<le> fuel + retry_count ?st1"
        using Suc.prems(8) by simp
    qed
    with step show ?thesis by simp
  next
    case False
    with reply have data: "?api ?k (skip st) = Data (page_at ps i)" by simp
    show ?thesis
    proof (cases "i < length ps div 20")
      case True
      then have full: "length (page_at ps i) = 20" by (rule page_at_full)
      let ?st1 = "st\<lparr>calls := calls st @ [(skip st, ?r, Data (page_at ps i))], retry_count := 0,
                     all_players := all_players st @ page_at ps i, skip := skip st + take_sz\<rparr>"
      have step: "fetch_loop ?api (Suc fuel) st = fetch_loop ?api fuel ?st1"
        by (rule fetch_full [where api = ?api and st = st, OF data]) (simp add: full take_sz_def)
      have "\<exists>st'. fetch_loop ?api fuel ?st1 = Some st' \<and> ended_on_short_page ps st'"
      proof (rule Suc.IH [of ?st1 "Suc i"])
        show "skip ?st1 = 20 * Suc i" using Suc.prems(1) by (simp add: take_sz_def)
        show "Suc i \<le> length ps div 20" using True by simp
        show "all_players ?st1 = take (20 * Suc i) ps"
          using Suc.prems(3) by (simp only: take_page_at [symmetric]) simp
        show "retry_count ?st1 \<le> 3" by simp
        show "retry_count ?st1 \<le> length (calls ?st1)" by simp
        show "\<forall>j<retry_count ?st1. fails (length (calls ?st1) - Suc j)" by simp
        show "length (filter succeeded (calls ?st1)) = Suc i" using Suc.prems(7) by simp
        show "4 * (length ps div 20 + 1 - Suc i) \<le> fuel + retry_count ?st1"
          using Suc.prems(8) Suc.prems(4) True by simp
      qed
      with step show ?thesis by simp
    next
      case False
      with Suc.prems(2) have i: "i = length ps div 20" by simp
      have short: "length (page_at ps i) < 20" unfolding i by (rule page_at_last)
      have whole: "take (20 * i) ps @ page_at ps i = ps" unfolding i by (rule take_last_page)
      show ?thesis
      proof (cases "page_at ps i = []")
        case True
        with data have "?api ?k (skip st) = Data []" by simp
        from fetch_empty [where api = ?api and st = st, OF this]
        have "fetch_loop ?api (Suc fuel) st =
            Some (st\<lparr>calls := calls st @ [(skip st, ?r, Data [])], retry_count := 0\<rparr>)" .
        moreover have "ended_on_short_page ps
            (st\<lparr>calls := calls st @ [(skip st, ?r, Data [])], retry_count := 0\<rparr>)"
          using whole True Suc.prems(3,7) i
          by (simp add: ended_on_short_page_def take_sz_def)
        ultimately show ?thesis by blast
      next
        case False
        from fetch_short [where api = ?api and st = st, OF data False]
        have "fetch_loop ?api (Suc fuel) st =
            Some (st\<lparr>calls := calls st @ [(skip st, ?r, Data (page_at ps i))], retry_count := 0,
                    all_players := all_players st @ page_at ps i\<rparr>)"
          using short by (simp add: take_sz_def)
        moreover have "ended_on_short_page ps
            (st\<lparr>calls := calls st @ [(skip st, ?r, Data (page_at ps i))], retry_count := 0,
                    all_players := all_players st @ page_at ps i\<rparr>)"
          using whole short Suc.prems(3,7) i
          by (simp add: ended_on_short_page_def take_sz_def)
        ultimately show ?thesis by blast
      qed
    qed
  qed
qed


lemma flaky_from_start:
  assumes "\<And>k. \<not> (fails k \<and> fails (k + 1) \<and> fails (k + 2) \<and> fails (k + 3))"
    and "4 * (length ps div take_sz + 1) \<le> fuel"
  shows "\<exists>st. fetch_loop (flaky fails ps) fuel fetch_init = Some st \<and> ended_on_short_page ps st"
  using assms(2)
  by (intro flaky_run [where i = 0, OF assms(1)]) (simp_all add: fetch_init_def take_sz_def)

lemma serve_flaky: "serve ps = flaky (\<lambda>k. False) ps"
  by (rule ext, rule ext) (simp add: serve_def flaky_def)

lemma ceil_exact: "20 dvd (n::nat) \<Longrightarrow> n div 20 = (n + 20 - 1) div 20"
  by (elim dvdE) simp

lemma ceil_inexact: "\<not> 20 dvd (n::nat) \<Longrightarrow> n div 20 + 1 = (n + 20 - 1) div 20"
proof -
  assume "\<not> 20 dvd n"
  then have r: "0 < n mod 20" by (simp add: dvd_eq_mod_eq_0)
  have r2: "n mod 20 < 20" by simp
  define q where "q = n div 20"
  define r where "r = n mod 20"
  have n: "n = 20 * q + r" by (simp add: q_def r_def)
  have "(n + 20 - 1) div 20 = (20 * q + (r + 19)) div 20" by (simp add: n)
  also have "\<dots> = q + (r + 19) div 20" by (simp only: div_mult_self4)
  also have "(r + 19) div 20 = 1" using r r2 unfolding r_def [symmetric] by simp
  finally show ?thesis by (simp add: q_def)
qed

lemma ceil_cases:
  "n div take_sz + 1 =
     (if take_sz dvd n then (n + take_sz - 1) div take_sz + 1 else (n + take_sz - 1) div take_sz)"
proof (cases "20 dvd n")
  case True
  from ceil_exact [OF this] True show ?thesis unfolding take_sz_def by (simp only: if_True)
next
  case False
  from ceil_inexact [OF this] False show ?thesis unfolding take_sz_def by (simp only: if_False)
qed

lemma flaky_successful_requests:
  assumes "\<And>k. \<not> (fails k \<and> fails (k + 1) \<and> fails (k + 2) \<and> fails (k + 3))"
    and "4 * (length ps div take_sz + 1) \<le> fuel"
  shows "successful_requests (flaky fails ps) fuel = Some (length ps div take_sz + 1)"
    and "get_all_game_data (flaky fails ps) fuel = Some ps"
proof -
  from flaky_from_start [of fails ps fuel, OF assms]
  obtain st where run: "fetch_loop (flaky fails ps) fuel fetch_init = Some st"
    and fin: "ended_on_short_page ps st" by blast
  from fin have all: "all_players st = ps"
    and cnt: "length (filter succeeded (calls st)) = length ps div take_sz + 1"
    unfolding ended_on_short_page_def by blast+
  show "successful_requests (flaky fails ps) fuel = Some (length ps div take_sz + 1)"
    unfolding successful_requests_def run using cnt by simp
  show "get_all_game_data (flaky fails ps) fuel = Some ps"
    unfolding get_all_game_data_def run using all by simp
qed

text \<open>
  Claim C4, as the code has it. Against an endpoint that holds \<open>N\<close> players and serves
  them in pages of 20, where calls may fail but never four in a row, the loop ends (with
  fuel for four calls per page), returns all \<open>N\<close> players, and has made exactly
  \<open>N div 20 + 1\<close> successful calls, the last of which is the call that brought the short
  or empty page: no call follows it. The number \<open>N div 20 + 1\<close> is the ceiling of
  \<open>N / 20\<close> when 20 does not divide \<open>N\<close>, and one more than it when 20 divides \<open>N\<close>.
\<close>

theorem pagination_requests:
  "(\<forall>k. \<not> (fails k \<and> fails (k + 1) \<and> fails (k + 2) \<and> fails (k + 3))) \<Longrightarrow>
   4 * (length ps div take_sz + 1) \<le> fuel \<Longrightarrow>
     (\<exists>st. fetch_loop (flaky fails ps) fuel fetch_init = Some st \<and> ended_on_short_page ps st)
     \<and> successful_requests (flaky fails ps) fuel = Some (length ps div take_sz + 1)
     \<and> get_all_game_data (flaky fails ps) fuel = Some ps
     \<and> length ps div take_sz + 1 =
         (if take_sz dvd length ps then (length ps + take_sz - 1) div take_sz + 1
          else (length ps + take_sz - 1) div take_sz)"
proof -
  assume H: "\<forall>k. \<not> (fails k \<and> fails (k + 1) \<and> fails (k + 2) \<and> fails (k + 3))"
    and fuel: "4 * (length ps div take_sz + 1) \<le> fuel"
  from H have H': "\<not> (fails k \<and> fails (k + 1) \<and> fails (k + 2) \<and> fails (k + 3))" for k
    by (rule spec)
  note flaky_from_start [of fails ps fuel, OF H' fuel]
    flaky_successful_requests [of fails ps fuel, OF H' fuel]
    ceil_cases [of "length ps"]
  then show ?thesis by (intro conjI)
qed

theorem pagination_requests_witness:
  "successful_requests (flaky two_failures [0..<45]) 12 = Some 3
   \<and> get_all_game_data (flaky two_failures [0..<45]) 12 = Some [0..<45]"
proof -
  have H: "\<forall>k. \<not> (two_failures k \<and> two_failures (k + 1) \<and> two_failures (k + 2)
                    \<and> two_failures (k + 3))"
    by (simp add: two_failures_def)
  have fuel: "4 * (length [0..<45] div take_sz + 1) \<le> 12"
    by (simp add: take_sz_def)
  from pagination_requests [OF H fuel] show ?thesis
    by (simp add: take_sz_def)
qed

text \<open>
  The claim C4 as stated counts \<open>ceil(N / 20)\<close> successful calls. For 40 players the loop
  makes three: two full pages and the empty page that ends it.
\<close>

theorem extra_request_on_full_last_page:
  "successful_requests (serve [0..<40]) 12 = Some 3 \<and> (40 + 19) div 20 = (2::nat)"
proof -
  have "successful_requests (flaky (\<lambda>k. False) [0..<40]) 12
      = Some (length [0..<40] div take_sz + 1)"
    by (rule flaky_successful_requests) (simp_all add: take_sz_def)
  then show ?thesis by (simp add: serve_flaky take_sz_def)
qed

section \<open>Runs that lack a required input\<close>

text \<open>
  Every run with a well-formed command line that lacks a required input returns from
  \<^verbatim>\<open>main\<close> after its message: nothing is exported, and the exit status is 0.
\<close>

lemma missing_input_returns:
  "length argv = 2 \<Longrightarrow>
   user_info = [] \<or> overview = None \<or> first_page_dates (api 0 0) = Inr [] \<Longrightarrow>
     \<exists>r. main argv user_info overview api fuel current_date = Some r
        \<and> message r \<noteq> [] \<and> exit_status r = 0 \<and> exported r = None"
  by (cases "api 0 0")
     (auto simp: main_def halt_def first_page_dates_def split: option.splits)

text \<open>
  Claim C9 ends a run that lacks a required input with a message, no export and a
  non-zero exit status, as the usage error of the same function does with
  \<^verbatim>\<open>sys.exit(1)\<close>. In the code the runs with an empty roster, without an overview and
  without campaign days on the first page print their message and return from
  \<^verbatim>\<open>main\<close>: nothing is exported, but the exit status is 0. The run with a wrong
  command line ends with status 1.
\<close>

theorem missing_input_exit_status_zero:
  "main [''moonwalk_tracker.py'', ''spring''] [] None unreachable 0 ''2024-06-01'' =
     Some \<lparr>message = ''Failed to read user information from CSV file'', exit_status = 0,
           exported = None\<rparr>
   \<and> main [''moonwalk_tracker.py'', ''spring''] [(''bob'', 7)] None unreachable 0 ''2024-06-01'' =
     Some \<lparr>message = ''Failed to get game overview'', exit_status = 0, exported = None\<rparr>
   \<and> main [''moonwalk_tracker.py'', ''spring''] [(''bob'', 7)]
       (Some \<lparr>game_name = ''Spring'', info_step_target = 10000\<rparr>) (serve []) 0 ''2024-06-01'' =
     Some \<lparr>message = ''Failed to get game dates'', exit_status = 0, exported = None\<rparr>
   \<and> main [''moonwalk_tracker.py''] [(''bob'', 7)]
       (Some \<lparr>game_name = ''Spring'', info_step_target = 10000\<rparr>) (serve []) 0 ''2024-06-01'' =
     Some \<lparr>message = ''Usage: python moonwalk_tracker.py <game_code>'', exit_status = 1,
           exported = None\<rparr>"
  by (simp add: main_def halt_def first_page_dates_def serve_def unreachable_def)

text \<open>
  For comparison, a run that has all its inputs: one roster user, one campaign day, one
  page with that user.
\<close>

lemma main_exports_example:
  "main [''moonwalk_tracker.py'', ''spring''] [(''bob'', 7)]
       (Some \<lparr>game_name = ''Spring'', info_step_target = 10000\<rparr>)
       (serve [\<lparr>name = Some ''bob'', player_steps =
                  [\<lparr>raw_day = Some ''2024-01-01'', raw_steps = Some (Num 12345)\<rparr>]\<rparr>])
       5 ''2024-06-01'' =
     Some \<lparr>message = ''Data saved'', exit_status = 0,
           exported = Some [\<lparr>row_id = 7, row_username = ''bob'', row_steps = [''12,345''],
                             row_status = ''Complete''\<rparr>]\<rparr>"
  by (simp add: main_def first_page_dates_def serve_def get_all_game_data_def fetch_loop_unfold
      fetch_init_def take_sz_def max_retries_def process_player_data_def aggregate_player_def
      get_steps_def format_steps_def comma_12345 py_gt_def py_max_default_def
      display_results_def player_completion_def pad_steps_def comparable_def save_to_csv_def
      parse_steps_eval check_task_completion_def step_date_def entry_steps_def show_status_def)

text \<open>
  Two runs that end with an uncaught exception: the roster user has more step entries
  than the first player of the first page, so the rows are wider than the header and
  \<^verbatim>\<open>save_to_csv\<close> raises ValueError; and the first entry of the first page has no
  \<^verbatim>\<open>'day'\<close>, so reading the campaign days raises KeyError.
\<close>

lemma comma_7: "format_comma 7 = ''7''"
  by (simp add: format_comma_def str_nat.simps commas.simps digit_char_def)

lemma parse_7: "parse_steps ''7'' = Inr 7"
  by (simp add: parse_steps_eval)

lemma main_long_series_example:
  "main [''moonwalk_tracker.py'', ''spring''] [(''bob'', 7)]
       (Some \<lparr>game_name = ''Spring'', info_step_target = 10000\<rparr>)
       (serve [\<lparr>name = Some ''amy'', player_steps =
                  [\<lparr>raw_day = Some ''2024-01-01'', raw_steps = Some (Num 7)\<rparr>]\<rparr>,
               \<lparr>name = Some ''bob'', player_steps =
                  [\<lparr>raw_day = Some ''2024-01-01'', raw_steps = Some (Num 7)\<rparr>,
                   \<lparr>raw_day = Some ''2024-01-02'', raw_steps = Some (Num 7)\<rparr>]\<rparr>])
       5 ''2024-06-01'' =
     Some \<lparr>message = ''Traceback (most recent call last)'', exit_status = 1, exported = None\<rparr>"
  by (simp add: main_def first_page_dates_def serve_def get_all_game_data_def fetch_loop_unfold
      fetch_init_def take_sz_def max_retries_def process_player_data_def aggregate_player_def
      get_steps_def format_steps_def comma_7 py_gt_def py_max_default_def
      display_results_def player_completion_def pad_steps_def comparable_def save_to_csv_def
      parse_7 check_task_completion_def step_date_def entry_steps_def show_status_def
      crash_def halt_def)

lemma main_missing_day_example:
  "main [''moonwalk_tracker.py'', ''spring''] [(''bob'', 7)]
       (Some \<lparr>game_name = ''Spring'', info_step_target = 10000\<rparr>)
       (serve [\<lparr>name = Some ''bob'', player_steps =
                  [\<lparr>raw_day = None, raw_steps = Some (Num 7)\<rparr>]\<rparr>])
       5 ''2024-06-01'' =
     Some \<lparr>message = ''Traceback (most recent call last)'', exit_status = 1, exported = None\<rparr>"
  by (simp add: main_def first_page_dates_def serve_def crash_def halt_def take_sz_def)

end
